theory Spec2Isabelle
  imports Main "HOL-Library.Word"
begin

section \<open>The interpreter of \<open>brainfuck.c\<close>\<close>

text \<open>
  The embedding follows \<open>src/brainfuck.c\<close> function by function.

  \<^item> A C \<open>char\<close> is an \<open>8 word\<close>; where the code promotes it to \<open>int\<close> (comparisons with
    \<open>EOF\<close> and with the character constants, the \<open>switch\<close>) the model reads it with
    \<open>sint\<close>: \<open>char\<close> is signed on the platform of the original. A C \<open>int\<close> that counts is
    a \<open>32 word\<close>, read with \<open>sint\<close>, so that \<open>++\<close> and \<open>--\<close> wrap around.
  \<^item> A \<open>FILE *\<close> and the standard input are the list of bytes still to be read; \<open>fgetc\<close> and
    \<open>getchar\<close> return an \<open>int\<close>: the byte as a value in 0..255, or \<open>EOF\<close>.
  \<^item> The blocks live in an explicit heap: a map from addresses to \<open>StackBlock\<close> records, the
    number of blocks handed out so far and the number of blocks \<open>malloc\<close> can hand out at
    all. A pointer is an \<open>addr option\<close>, \<open>None\<close> being \<open>NULL\<close>; a function that is only
    ever called with a block takes an \<open>addr\<close>.
  \<^item> \<open>exit(1)\<close> after a failed \<open>malloc\<close> and the \<open>return 1\<close> of \<open>main\<close> are values \<open>Inl e\<close>.
  \<^item> The loops that may run forever (the two bracket scans and the main loop of
    \<open>executeProgram\<close>) are partial functions into \<open>option\<close>: \<open>None\<close> is a run that never
    returns.
\<close>

subsection \<open>Constants\<close>

definition EOF :: int where "EOF = - 1"

definition MOVE_FORWARD :: int where "MOVE_FORWARD = 62"
definition MOVE_BACKWARD :: int where "MOVE_BACKWARD = 60"
definition INCREMENT_DATA :: int where "INCREMENT_DATA = 43"
definition DECREMENT_DATA :: int where "DECREMENT_DATA = 45"
definition OUTPUT_DATA :: int where "OUTPUT_DATA = 46"
definition INPUT_DATA :: int where "INPUT_DATA = 44"
definition LOOP_START :: int where "LOOP_START = 91"
definition LOOP_END :: int where "LOOP_END = 93"

lemmas command_defs =
  MOVE_FORWARD_def MOVE_BACKWARD_def INCREMENT_DATA_def DECREMENT_DATA_def
  OUTPUT_DATA_def INPUT_DATA_def LOOP_START_def LOOP_END_def

subsection \<open>Byte streams\<close>

text \<open>\<open>fgetc\<close>: the next byte as an unsigned value and the rest of the stream, \<open>EOF\<close> at the end.\<close>

fun fgetc :: "8 word list \<Rightarrow> int \<times> 8 word list" where
  "fgetc [] = (EOF, [])"
| "fgetc (b # bs) = (uint b, bs)"

text \<open>A program text as the bytes of its file.\<close>

definition bytes_of :: "string \<Rightarrow> 8 word list" where
  "bytes_of s = map of_char s"

subsection \<open>\<open>checkBrackets\<close>\<close>

text \<open>
  The loop of \<open>checkBrackets\<close>. The result of \<open>fgetc\<close> is stored in the \<open>char command\<close>
  before it is compared with \<open>EOF\<close>.
\<close>

function checkBrackets_loop :: "8 word list \<Rightarrow> 32 word \<Rightarrow> bool" where
  "checkBrackets_loop file loopCounter =
     (let (r, file') = fgetc file;
          command = (word_of_int r :: 8 word)
      in if sint command \<noteq> EOF then
           let loopCounter1 = (if sint command = LOOP_START then loopCounter + 1 else loopCounter);
               loopCounter2 = (if sint command = LOOP_END then loopCounter1 - 1 else loopCounter1)
           in if sint loopCounter2 < 0 then False
              else checkBrackets_loop file' loopCounter2
         else loopCounter = 0)"
  by pat_completeness auto
termination
proof (relation "measure (\<lambda>(file, loopCounter). length file)")
  show "wf (measure (\<lambda>(file, loopCounter). length file))" by simp
next
  fix f :: "8 word list" and loopCounter :: "32 word" and x r f' command c1 c2
  assume "x = fgetc f" "(r, f') = x" "command = (word_of_int r :: 8 word)"
    and "sint command \<noteq> EOF"
  then show "((f', c2), (f, loopCounter)) \<in> measure (\<lambda>(file, loopCounter). length file)"
    by (cases f) (auto simp: EOF_def)
qed

definition checkBrackets :: "8 word list \<Rightarrow> bool" where
  "checkBrackets file = checkBrackets_loop file 0"

subsection \<open>Blocks and the heap\<close>

type_synonym addr = nat

record StackBlock =
  next_ptr :: "addr option"
  prev_ptr :: "addr option"
  data :: "8 word"

text \<open>
  \<open>blocks\<close> holds the contents of every address; those below \<open>used\<close> have been handed out.
  What \<open>blocks\<close> holds at an address not yet handed out is what \<open>malloc\<close> returns there:
  memory that nobody initialised.
\<close>

record heap =
  blocks :: "addr \<Rightarrow> StackBlock"
  used :: nat
  limit :: nat

datatype error = OutOfMemory | UnmatchedBrackets

definition malloc :: "heap \<Rightarrow> (addr \<times> heap) option" where
  "malloc h = (if used h < limit h then Some (used h, h\<lparr>used := used h + 1\<rparr>) else None)"

definition set_next :: "heap \<Rightarrow> addr \<Rightarrow> addr option \<Rightarrow> heap" where
  "set_next h p v = h\<lparr>blocks := (blocks h)(p := (blocks h p)\<lparr>next_ptr := v\<rparr>)\<rparr>"

definition set_prev :: "heap \<Rightarrow> addr \<Rightarrow> addr option \<Rightarrow> heap" where
  "set_prev h p v = h\<lparr>blocks := (blocks h)(p := (blocks h p)\<lparr>prev_ptr := v\<rparr>)\<rparr>"

definition set_data :: "heap \<Rightarrow> addr \<Rightarrow> 8 word \<Rightarrow> heap" where
  "set_data h p v = h\<lparr>blocks := (blocks h)(p := (blocks h p)\<lparr>data := v\<rparr>)\<rparr>"

definition get_data :: "heap \<Rightarrow> addr \<Rightarrow> 8 word" where
  "get_data h p = data (blocks h p)"

subsection \<open>Moving along a tape\<close>

text \<open>
  \<open>moveForward\<close> returns \<open>blockPointer->next\<close>, which in the allocating branch is the block
  just linked there.
\<close>

definition moveForward :: "heap \<Rightarrow> addr \<Rightarrow> error + heap \<times> addr" where
  "moveForward h blockPointer =
     (case next_ptr (blocks h blockPointer) of
        None \<Rightarrow>
          (case malloc h of
             None \<Rightarrow> Inl OutOfMemory
           | Some (newBlock, h1) \<Rightarrow>
               let h2 = set_prev h1 newBlock (Some blockPointer);
                   h3 = set_next h2 newBlock None;
                   h4 = set_next h3 blockPointer (Some newBlock);
                   h5 = set_data h4 newBlock 0
               in Inr (h5, newBlock))
      | Some q \<Rightarrow> Inr (h, q))"

definition moveBackward :: "heap \<Rightarrow> addr \<Rightarrow> error + heap \<times> addr" where
  "moveBackward h blockPointer =
     (case prev_ptr (blocks h blockPointer) of
        None \<Rightarrow>
          (case malloc h of
             None \<Rightarrow> Inl OutOfMemory
           | Some (newBlock, h1) \<Rightarrow>
               let h2 = set_next h1 newBlock (Some blockPointer);
                   h3 = set_prev h2 newBlock None;
                   h4 = set_prev h3 blockPointer (Some newBlock);
                   h5 = set_data h4 newBlock 0
               in Inr (h5, newBlock))
      | Some q \<Rightarrow> Inr (h, q))"

subsection \<open>The data instructions\<close>

text \<open>
  The state of a run: the heap, what is left of the standard input, what has been written
  to the standard output, and the two cursors of \<open>executeProgram\<close>.
\<close>

record state =
  mem :: heap
  stdin :: "8 word list"
  stdout :: "8 word list"
  InstructionPointer :: addr
  DataPointer :: addr

definition incrementData :: "heap \<Rightarrow> addr \<Rightarrow> heap" where
  "incrementData h blockPointer = set_data h blockPointer (get_data h blockPointer + 1)"

definition decrementData :: "heap \<Rightarrow> addr \<Rightarrow> heap" where
  "decrementData h blockPointer = set_data h blockPointer (get_data h blockPointer - 1)"

text \<open>\<open>printf("%c", ...)\<close> writes the byte of the cell.\<close>

definition outputData :: "state \<Rightarrow> addr \<Rightarrow> state" where
  "outputData s blockPointer = s\<lparr>stdout := stdout s @ [get_data (mem s) blockPointer]\<rparr>"

text \<open>\<open>getchar\<close> returns an \<open>int\<close>, which the assignment to \<open>data\<close> truncates to a \<open>char\<close>.\<close>

definition inputData :: "state \<Rightarrow> addr \<Rightarrow> state" where
  "inputData s blockPointer =
     (let (r, rest) = fgetc (stdin s)
      in s\<lparr>mem := set_data (mem s) blockPointer (word_of_int r), stdin := rest\<rparr>)"

subsection \<open>\<open>parseInstructions\<close>\<close>

definition is_command :: "8 word \<Rightarrow> bool" where
  "is_command command \<longleftrightarrow>
     sint command = MOVE_FORWARD \<or> sint command = MOVE_BACKWARD \<or>
     sint command = INCREMENT_DATA \<or> sint command = DECREMENT_DATA \<or>
     sint command = OUTPUT_DATA \<or> sint command = INPUT_DATA \<or>
     sint command = LOOP_START \<or> sint command = LOOP_END"

function parseInstructions_loop :: "8 word list \<Rightarrow> heap \<Rightarrow> addr \<Rightarrow> error + heap" where
  "parseInstructions_loop file h currentBlock =
     (let (r, file') = fgetc file;
          command = (word_of_int r :: 8 word)
      in if sint command \<noteq> EOF then
           if is_command command then
             (case moveForward (set_data h currentBlock command) currentBlock of
                Inl e \<Rightarrow> Inl e
              | Inr (h', currentBlock') \<Rightarrow> parseInstructions_loop file' h' currentBlock')
           else parseInstructions_loop file' h currentBlock
         else Inr h)"
  by pat_completeness auto
termination
proof (relation "measure (\<lambda>(file, h, currentBlock). length file)")
  show "wf (measure (\<lambda>(file, h, currentBlock). length file))" by simp
next
  fix f :: "8 word list" and h :: heap and currentBlock :: addr
    and x r f' command x2 xa h' currentBlock'
  assume "x = fgetc f" "(r, f') = x" "command = (word_of_int r :: 8 word)"
    and "sint command \<noteq> EOF"
  then show "((f', h', currentBlock'), (f, h, currentBlock))
      \<in> measure (\<lambda>(file, h, currentBlock). length file)"
    by (cases f) (auto simp: EOF_def)
next
  fix f :: "8 word list" and h :: heap and currentBlock :: addr and x r f' command
  assume "x = fgetc f" "(r, f') = x" "command = (word_of_int r :: 8 word)"
    and "sint command \<noteq> EOF"
  then show "((f', h, currentBlock), (f, h, currentBlock))
      \<in> measure (\<lambda>(file, h, currentBlock). length file)"
    by (cases f) (auto simp: EOF_def)
qed

definition parseInstructions :: "8 word list \<Rightarrow> heap \<Rightarrow> addr \<Rightarrow> error + heap" where
  "parseInstructions file h instructionHead = parseInstructions_loop file h instructionHead"

subsection \<open>\<open>executeProgram\<close>\<close>

text \<open>The scan of the \<open>LOOP_START\<close> case, entered with \<open>loopCounter = 1\<close>.\<close>

partial_function (option)
  scanForward :: "heap \<Rightarrow> addr \<Rightarrow> 32 word \<Rightarrow> (error + heap \<times> addr) option" where
  "scanForward h ip loopCounter =
     (if loopCounter \<noteq> 0 then
        (case moveForward h ip of
           Inl e \<Rightarrow> Some (Inl e)
         | Inr (h', ip') \<Rightarrow>
             scanForward h' ip'
               (if sint (get_data h' ip') = LOOP_START then loopCounter + 1
                else if sint (get_data h' ip') = LOOP_END then loopCounter - 1
                else loopCounter))
      else Some (Inr (h, ip)))"

declare scanForward.simps [code]

text \<open>The scan of the \<open>LOOP_END\<close> case.\<close>

partial_function (option)
  scanBackward :: "heap \<Rightarrow> addr \<Rightarrow> 32 word \<Rightarrow> (error + heap \<times> addr) option" where
  "scanBackward h ip loopCounter =
     (if loopCounter \<noteq> 0 then
        (case moveBackward h ip of
           Inl e \<Rightarrow> Some (Inl e)
         | Inr (h', ip') \<Rightarrow>
             scanBackward h' ip'
               (if sint (get_data h' ip') = LOOP_START then loopCounter - 1
                else if sint (get_data h' ip') = LOOP_END then loopCounter + 1
                else loopCounter))
      else Some (Inr (h, ip)))"

declare scanBackward.simps [code]

text \<open>The \<open>switch\<close> of the loop body.\<close>

definition execCommand :: "state \<Rightarrow> (error + state) option" where
  "execCommand s =
     (let h = mem s; ip = InstructionPointer s; dp = DataPointer s;
          command = sint (get_data h ip)
      in if command = MOVE_FORWARD then
           (case moveForward h dp of
              Inl e \<Rightarrow> Some (Inl e)
            | Inr (h', dp') \<Rightarrow> Some (Inr (s\<lparr>mem := h', DataPointer := dp'\<rparr>)))
         else if command = MOVE_BACKWARD then
           (case moveBackward h dp of
              Inl e \<Rightarrow> Some (Inl e)
            | Inr (h', dp') \<Rightarrow> Some (Inr (s\<lparr>mem := h', DataPointer := dp'\<rparr>)))
         else if command = INCREMENT_DATA then Some (Inr (s\<lparr>mem := incrementData h dp\<rparr>))
         else if command = DECREMENT_DATA then Some (Inr (s\<lparr>mem := decrementData h dp\<rparr>))
         else if command = OUTPUT_DATA then Some (Inr (outputData s dp))
         else if command = INPUT_DATA then Some (Inr (inputData s dp))
         else if command = LOOP_START then
           (if get_data h dp = 0 then
              (case scanForward h ip 1 of
                 None \<Rightarrow> None
               | Some (Inl e) \<Rightarrow> Some (Inl e)
               | Some (Inr (h', ip')) \<Rightarrow> Some (Inr (s\<lparr>mem := h', InstructionPointer := ip'\<rparr>)))
            else Some (Inr s))
         else if command = LOOP_END then
           (if get_data h dp \<noteq> 0 then
              (case scanBackward h ip 1 of
                 None \<Rightarrow> None
               | Some (Inl e) \<Rightarrow> Some (Inl e)
               | Some (Inr (h', ip')) \<Rightarrow> Some (Inr (s\<lparr>mem := h', InstructionPointer := ip'\<rparr>)))
            else Some (Inr s))
         else Some (Inr s))"

text \<open>One pass through the body of the main loop: the \<open>switch\<close>, then one step forward.\<close>

definition execStep :: "state \<Rightarrow> (error + state) option" where
  "execStep s =
     (case execCommand s of
        None \<Rightarrow> None
      | Some (Inl e) \<Rightarrow> Some (Inl e)
      | Some (Inr s1) \<Rightarrow>
          (case moveForward (mem s1) (InstructionPointer s1) of
             Inl e \<Rightarrow> Some (Inl e)
           | Inr (h', ip') \<Rightarrow> Some (Inr (s1\<lparr>mem := h', InstructionPointer := ip'\<rparr>))))"

partial_function (option) executeProgram :: "state \<Rightarrow> (error + state) option" where
  "executeProgram s =
     (if get_data (mem s) (InstructionPointer s) \<noteq> 0 then
        (case execStep s of
           None \<Rightarrow> None
         | Some (Inl e) \<Rightarrow> Some (Inl e)
         | Some (Inr s') \<Rightarrow> executeProgram s')
      else Some (Inr s))"

declare executeProgram.simps [code]

subsection \<open>\<open>main\<close>\<close>

text \<open>
  \<open>main\<close> from the point where the file is open: \<open>file\<close> is its contents, \<open>h0\<close> the heap
  before the first \<open>malloc\<close> and \<open>input\<close> the standard input. \<open>rewind\<close> gives
  \<open>parseInstructions\<close> the whole file again. \<open>loadProgram\<close> is \<open>main\<close> up to the call of
  \<open>executeProgram\<close>; the result of \<open>main\<close> is the state when \<open>executeProgram\<close> returns, before
  the blocks are freed.
\<close>

definition loadProgram :: "8 word list \<Rightarrow> heap \<Rightarrow> 8 word list \<Rightarrow> error + state" where
  "loadProgram file h0 input =
     (if \<not> checkBrackets file then Inl UnmatchedBrackets
      else
        (case malloc h0 of
           None \<Rightarrow> Inl OutOfMemory
         | Some (instructionHead, h1) \<Rightarrow>
             (case malloc h1 of
                None \<Rightarrow> Inl OutOfMemory
              | Some (dataHead, h2) \<Rightarrow>
                  let h3 = set_prev (set_next h2 instructionHead None) instructionHead None;
                      h4 = set_prev (set_next h3 dataHead None) dataHead None;
                      h5 = set_data h4 dataHead 0
                  in (case parseInstructions file h5 instructionHead of
                        Inl e \<Rightarrow> Inl e
                      | Inr h6 \<Rightarrow>
                          Inr \<lparr>mem = h6, stdin = input, stdout = [],
                               InstructionPointer = instructionHead,
                               DataPointer = dataHead\<rparr>))))"

definition main :: "8 word list \<Rightarrow> heap \<Rightarrow> 8 word list \<Rightarrow> (error + state) option" where
  "main file h0 input =
     (case loadProgram file h0 input of
        Inl e \<Rightarrow> Some (Inl e)
      | Inr s \<Rightarrow> executeProgram s)"

section \<open>Notions used in the statements\<close>

subsection \<open>The running depth of a source stream\<close>

text \<open>
  The depth counter of the specification, written from its words: it starts at 0, a
  loop-open byte adds 1, a loop-close byte takes 1 away. \<open>running_depth src\<close> is the depth
  after the whole of \<open>src\<close>; the depth after a prefix is \<open>running_depth (take k src)\<close>.
  A stream is \<open>depth_balanced\<close> when the depth is negative after no prefix and 0 at the end.
\<close>

fun running_depth :: "8 word list \<Rightarrow> int" where
  "running_depth [] = 0"
| "running_depth (b # bs) =
     (if sint b = LOOP_START then 1 else if sint b = LOOP_END then - 1 else 0) + running_depth bs"

definition depth_balanced :: "8 word list \<Rightarrow> bool" where
  "depth_balanced src \<longleftrightarrow>
     (\<forall>k\<le>length src. 0 \<le> running_depth (take k src)) \<and> running_depth src = 0"

text \<open>
  The counters of the brackets are C \<open>int\<close>s. A stream is \<open>depth_bounded\<close> when the depth
  after each prefix is one that an \<open>int\<close> holds.
\<close>

definition depth_bounded :: "8 word list \<Rightarrow> bool" where
  "depth_bounded src \<longleftrightarrow> (\<forall>k\<le>length src. running_depth (take k src) < 2 ^ 31)"

subsection \<open>States for the instances\<close>

text \<open>
  A heap from which nothing has been handed out yet, with room for \<open>n\<close> blocks; every
  data byte of the uninitialised memory is \<open>junk\<close>.
\<close>

definition fresh_heap :: "8 word \<Rightarrow> nat \<Rightarrow> heap" where
  "fresh_heap junk n =
     \<lparr>blocks = (\<lambda>_. \<lparr>next_ptr = None, prev_ptr = None, data = junk\<rparr>), used = 0, limit = n\<rparr>"

text \<open>A state with one block, holding the input instruction, and no input left.\<close>

definition input_state :: state where
  "input_state =
     \<lparr>mem = \<lparr>blocks = (\<lambda>_. \<lparr>next_ptr = None, prev_ptr = None, data = 44\<rparr>),
             used = 1, limit = 1\<rparr>,
      stdin = [], stdout = [], InstructionPointer = 0, DataPointer = 0\<rparr>"

subsection \<open>Tapes in the heap\<close>

text \<open>
  \<open>tape h cs\<close>: the blocks at the addresses \<open>cs\<close>, all handed out and all different, form one
  doubly linked list in \<open>h\<close>, from its first block (\<open>prev\<close> is \<open>NULL\<close>) to its last (\<open>next\<close>
  is \<open>NULL\<close>). This is what the specification calls a tape; a cursor is one of \<open>cs\<close>.
\<close>

definition tape :: "heap \<Rightarrow> addr list \<Rightarrow> bool" where
  "tape h cs \<longleftrightarrow>
     cs \<noteq> [] \<and> distinct cs \<and> (\<forall>a\<in>set cs. a < used h) \<and>
     (\<forall>i<length cs.
        next_ptr (blocks h (cs ! i)) = (if Suc i < length cs then Some (cs ! Suc i) else None) \<and>
        prev_ptr (blocks h (cs ! i)) = (if i = 0 then None else Some (cs ! (i - 1))))"

text \<open>
  The heap after the allocating branch of \<open>moveForward\<close> and of \<open>moveBackward\<close> at the block
  \<open>p\<close>; the new block is \<open>used h\<close>.
\<close>

definition alloc_next :: "heap \<Rightarrow> addr \<Rightarrow> heap" where
  "alloc_next h p =
     set_data (set_next (set_next (set_prev (h\<lparr>used := used h + 1\<rparr>) (used h) (Some p))
       (used h) None) p (Some (used h))) (used h) 0"

definition alloc_prev :: "heap \<Rightarrow> addr \<Rightarrow> heap" where
  "alloc_prev h p =
     set_data (set_prev (set_prev (set_next (h\<lparr>used := used h + 1\<rparr>) (used h) (Some p))
       (used h) None) p (Some (used h))) (used h) 0"

text \<open>\<open>n\<close> moves in a row, stopping at the first failure.\<close>

fun moveN :: "(heap \<Rightarrow> addr \<Rightarrow> error + heap \<times> addr) \<Rightarrow> nat \<Rightarrow> heap \<Rightarrow> addr
    \<Rightarrow> error + heap \<times> addr" where
  "moveN mv 0 h p = Inr (h, p)"
| "moveN mv (Suc n) h p =
     (case mv h p of Inl e \<Rightarrow> Inl e | Inr (h', p') \<Rightarrow> moveN mv n h' p')"

subsection \<open>What is loaded\<close>

text \<open>
  The bytes that \<open>parseInstructions\<close> stores: the instruction symbols among the bytes before
  the first byte 255. \<open>init_heads\<close> is the heap of \<open>main\<close> between its two calls of
  \<open>malloc\<close> and the call of \<open>parseInstructions\<close>: the instruction head (the block \<open>used h0\<close>)
  has its two pointers set and its \<open>data\<close> left as \<open>malloc\<close> returned it; the data head (the
  next block) has its pointers set and its \<open>data\<close> set to 0.
\<close>

definition loaded :: "8 word list \<Rightarrow> 8 word list" where
  "loaded src = filter is_command (takeWhile (\<lambda>b. b \<noteq> 255) src)"

definition init_heads :: "heap \<Rightarrow> heap" where
  "init_heads h0 = (let u = used h0; h2 = h0\<lparr>used := u + 1\<rparr>\<lparr>used := u + 1 + 1\<rparr>;
      h3 = set_prev (set_next h2 u None) u None;
      h4 = set_prev (set_next h3 (Suc u) None) (Suc u) None
   in set_data h4 (Suc u) 0)"

subsection \<open>Traces\<close>

text \<open>
  The first \<open>n\<close> passes through the main loop of \<open>executeProgram\<close>: the commands executed,
  in order, and the state reached. \<open>None\<close> when the loop ends before, or a pass does not
  return a state.
\<close>

fun execTrace :: "nat \<Rightarrow> state \<Rightarrow> (8 word list \<times> state) option" where
  "execTrace 0 s = Some ([], s)"
| "execTrace (Suc n) s =
     (if get_data (mem s) (InstructionPointer s) = 0 then None
      else case execStep s of
             Some (Inr s1) \<Rightarrow>
               (case execTrace n s1 of
                  None \<Rightarrow> None
                | Some (t, s') \<Rightarrow> Some (get_data (mem s) (InstructionPointer s) # t, s'))
           | _ \<Rightarrow> None)"

subsection \<open>The run on the cell values\<close>

text \<open>
  A run as seen on the values of the cells: \<open>prog\<close> are the values of the instruction tape and
  \<open>pc\<close> the position of the instruction cursor, \<open>cells\<close> the values of the data tape and
  \<open>pos\<close> the position of the data cursor, \<open>origin\<close> the position of the first data cell.
  \<open>acommand\<close>, \<open>astep\<close> and \<open>atrace\<close> follow \<open>execCommand\<close>, \<open>execStep\<close> and \<open>execTrace\<close>
  as long as the instruction cursor stays on the cells of \<open>prog\<close>, and are \<open>None\<close> when it
  would leave them. They are used to compute runs; the relation \<open>sim\<close> ties a state of the
  heap to them, and every statement about a run is transferred to \<open>executeProgram\<close>.
\<close>

record aconf =
  prog :: "8 word list"
  pc :: nat
  cells :: "8 word list"
  pos :: nat
  origin :: nat
  ainput :: "8 word list"
  aoutput :: "8 word list"

fun scan_fwd :: "8 word list \<Rightarrow> 32 word \<Rightarrow> nat option" where
  "scan_fwd [] c = (if c = 0 then Some 0 else None)"
| "scan_fwd (x # xs) c =
     (if c = 0 then Some 0
      else map_option Suc (scan_fwd xs
             (if sint x = LOOP_START then c + 1
              else if sint x = LOOP_END then c - 1 else c)))"

fun scan_bwd :: "8 word list \<Rightarrow> 32 word \<Rightarrow> nat option" where
  "scan_bwd [] c = (if c = 0 then Some 0 else None)"
| "scan_bwd (x # xs) c =
     (if c = 0 then Some 0
      else map_option Suc (scan_bwd xs
             (if sint x = LOOP_START then c - 1
              else if sint x = LOOP_END then c + 1 else c)))"

definition acommand :: "aconf \<Rightarrow> aconf option" where
  "acommand c =
     (let command = sint (prog c ! pc c); v = cells c ! pos c
      in if command = MOVE_FORWARD then
           Some (if Suc (pos c) < length (cells c) then c\<lparr>pos := Suc (pos c)\<rparr>
                 else c\<lparr>cells := cells c @ [0], pos := Suc (pos c)\<rparr>)
         else if command = MOVE_BACKWARD then
           Some (if 0 < pos c then c\<lparr>pos := pos c - 1\<rparr>
                 else c\<lparr>cells := 0 # cells c, origin := Suc (origin c)\<rparr>)
         else if command = INCREMENT_DATA then Some (c\<lparr>cells := (cells c)[pos c := v + 1]\<rparr>)
         else if command = DECREMENT_DATA then Some (c\<lparr>cells := (cells c)[pos c := v - 1]\<rparr>)
         else if command = OUTPUT_DATA then Some (c\<lparr>aoutput := aoutput c @ [v]\<rparr>)
         else if command = INPUT_DATA then
           Some (case ainput c of
                   [] \<Rightarrow> c\<lparr>cells := (cells c)[pos c := 255]\<rparr>
                 | b # bs \<Rightarrow> c\<lparr>cells := (cells c)[pos c := b], ainput := bs\<rparr>)
         else if command = LOOP_START then
           (if v = 0 then
              (case scan_fwd (drop (Suc (pc c)) (prog c)) 1 of
                 None \<Rightarrow> None
               | Some k \<Rightarrow> Some (c\<lparr>pc := pc c + k\<rparr>))
            else Some c)
         else if command = LOOP_END then
           (if v \<noteq> 0 then
              (case scan_bwd (rev (take (pc c) (prog c))) 1 of
                 None \<Rightarrow> None
               | Some k \<Rightarrow> Some (c\<lparr>pc := pc c - k\<rparr>))
            else Some c)
         else Some c)"

definition astep :: "aconf \<Rightarrow> aconf option" where
  "astep c =
     (case acommand c of
        None \<Rightarrow> None
      | Some c1 \<Rightarrow> if Suc (pc c1) < length (prog c1) then Some (c1\<lparr>pc := Suc (pc c1)\<rparr>) else None)"

fun atrace :: "nat \<Rightarrow> aconf \<Rightarrow> (8 word list \<times> aconf) option" where
  "atrace 0 c = Some ([], c)"
| "atrace (Suc n) c =
     (if prog c ! pc c = 0 then None
      else case astep c of
             None \<Rightarrow> None
           | Some c1 \<Rightarrow>
               (case atrace n c1 of
                  None \<Rightarrow> None
                | Some (t, c') \<Rightarrow> Some (prog c ! pc c # t, c')))"

definition sim :: "addr list \<Rightarrow> addr list \<Rightarrow> state \<Rightarrow> aconf \<Rightarrow> bool" where
  "sim I D s c \<longleftrightarrow>
     tape (mem s) I \<and> tape (mem s) D \<and> set I \<inter> set D = {} \<and>
     map (get_data (mem s)) I = prog c \<and> map (get_data (mem s)) D = cells c \<and>
     pc c < length I \<and> InstructionPointer s = I ! pc c \<and>
     pos c < length D \<and> DataPointer s = D ! pos c \<and> origin c < length D \<and>
     stdin s = ainput c \<and> stdout s = aoutput c"

definition initial_conf :: "8 word list \<Rightarrow> 8 word list \<Rightarrow> aconf" where
  "initial_conf p input =
     \<lparr>prog = p @ [0], pc = 0, cells = [0], pos = 0, origin = 0, ainput = input, aoutput = []\<rparr>"

subsection \<open>Programs of the claims\<close>

definition add_program :: "8 word list" where
  "add_program = bytes_of ''++>+++++[<+>-]<.''"

definition clear_program :: "8 word list" where
  "clear_program = bytes_of ''+[-]''"

text \<open>\<open>k\<close> increments followed by one output.\<close>

definition incr_program :: "nat \<Rightarrow> 8 word list" where
  "incr_program k = replicate k 43 @ [46]"


text \<open>The program of the counterexample to claim C4.\<close>

definition stuck_program :: "8 word list" where
  "stuck_program = bytes_of ''+[]''"

text \<open>
  A state on the loop-open of an empty loop: the instruction tape \<open>[\<close>, \<open>]\<close>, sentinel in the
  blocks 0, 1 and 2, the instruction cursor on block 0, and the data cursor on block 3, which
  holds \<open>v\<close>.
\<close>

definition loop_state :: "8 word \<Rightarrow> state" where
  "loop_state v =
     \<lparr>mem = \<lparr>blocks = (\<lambda>_. \<lparr>next_ptr = None, prev_ptr = None, data = v\<rparr>)
               (0 := \<lparr>next_ptr = Some 1, prev_ptr = None, data = 91\<rparr>,
                1 := \<lparr>next_ptr = Some 2, prev_ptr = Some 0, data = 93\<rparr>,
                2 := \<lparr>next_ptr = None, prev_ptr = Some 1, data = 0\<rparr>),
             used = 4, limit = 4\<rparr>,
      stdin = [], stdout = [], InstructionPointer = 0, DataPointer = 3\<rparr>"

subsection \<open>The cells of a tape, and sets of blocks closed under the links\<close>

text \<open>
  The cells met from the block \<open>p\<close> along the \<open>next\<close> links. No tape has more cells than
  the blocks allocated, so \<open>used h\<close> steps reach its end.
\<close>

fun walk :: "heap \<Rightarrow> nat \<Rightarrow> addr \<Rightarrow> addr list" where
  "walk h 0 p = []"
| "walk h (Suc n) p = p # (case next_ptr (blocks h p) of None \<Rightarrow> [] | Some q \<Rightarrow> walk h n q)"

definition cells_from :: "heap \<Rightarrow> addr \<Rightarrow> addr list" where
  "cells_from h p = walk h (used h) p"

text \<open>
  A set of allocated blocks whose \<open>next\<close> and \<open>prev\<close> links stay in the set: a cursor that
  starts in it and moves along the links without allocating remains in it.
\<close>

definition closed :: "heap \<Rightarrow> addr set \<Rightarrow> bool" where
  "closed h A \<longleftrightarrow>
     (\<forall>a\<in>A. a < used h \<and>
        (\<forall>q. next_ptr (blocks h a) = Some q \<longrightarrow> q \<in> A) \<and>
        (\<forall>q. prev_ptr (blocks h a) = Some q \<longrightarrow> q \<in> A))"

text \<open>
  What moves of a cursor in \<open>A\<close> do to the heap: \<open>A\<close> may gain blocks, it stays closed and
  apart from the closed set \<open>B\<close>, and no block allocated before changes its \<open>data\<close>.
\<close>

definition grown :: "heap \<Rightarrow> addr set \<Rightarrow> addr set \<Rightarrow> heap \<Rightarrow> addr set \<Rightarrow> bool" where
  "grown h A B h' A' \<longleftrightarrow>
     A \<subseteq> A' \<and> closed h' A' \<and> closed h' B \<and> A' \<inter> B = {} \<and> used h \<le> used h' \<and>
     (\<forall>a<used h. get_data h' a = get_data h a)"

text \<open>The instruction cursor and the data cursor are in two closed sets that are apart.\<close>

definition sep :: "addr set \<Rightarrow> addr set \<Rightarrow> state \<Rightarrow> bool" where
  "sep A B s \<longleftrightarrow>
     closed (mem s) A \<and> closed (mem s) B \<and> A \<inter> B = {} \<and>
     InstructionPointer s \<in> A \<and> DataPointer s \<in> B"

text \<open>What a byte adds to the running depth.\<close>

definition bracket_value :: "8 word \<Rightarrow> int" where
  "bracket_value b = (if sint b = LOOP_START then 1 else if sint b = LOOP_END then - 1 else 0)"

section \<open>Reading the source: \<open>checkBrackets\<close> and \<open>parseInstructions\<close>\<close>

declare checkBrackets_loop.simps [simp del]
declare parseInstructions_loop.simps [simp del]

text \<open>The only \<open>char\<close> that compares equal to \<open>EOF\<close> is the byte 255.\<close>

lemma sint_char_eq_EOF: "sint (b :: 8 word) = EOF \<longleftrightarrow> b = 255"
proof
  assume "sint b = EOF"
  then have "word_of_int (sint b) = (word_of_int (- 1) :: 8 word)" by (simp add: EOF_def)
  then show "b = 255" by simp
next
  assume "b = 255" then show "sint b = EOF" by (simp add: EOF_def)
qed

lemma checkBrackets_loop_Nil: "checkBrackets_loop [] c = (c = 0)"
  by (simp add: checkBrackets_loop.simps[of "[]"] EOF_def)

lemma checkBrackets_loop_Cons:
  "checkBrackets_loop (b # bs) c =
     (if b = 255 then c = 0
      else let c1 = (if sint b = LOOP_START then c + 1 else c);
               c2 = (if sint b = LOOP_END then c1 - 1 else c1)
           in if sint c2 < 0 then False else checkBrackets_loop bs c2)"
  by (simp add: checkBrackets_loop.simps[of "b # bs"] sint_char_eq_EOF Let_def)

lemma parseInstructions_loop_Nil: "parseInstructions_loop [] h p = Inr h"
  by (simp add: parseInstructions_loop.simps[of "[]"] EOF_def)

lemma parseInstructions_loop_Cons:
  "parseInstructions_loop (b # bs) h p =
     (if b = 255 then Inr h
      else if is_command b then
        (case moveForward (set_data h p b) p of
           Inl e \<Rightarrow> Inl e
         | Inr (h', p') \<Rightarrow> parseInstructions_loop bs h' p')
      else parseInstructions_loop bs h p)"
  by (simp add: parseInstructions_loop.simps[of "b # bs"] sint_char_eq_EOF)

subsection \<open>Both loops stop at the first byte 255\<close>

lemma checkBrackets_loop_stop:
  "255 \<notin> set pre \<Longrightarrow>
   checkBrackets_loop (pre @ 255 # post) c = checkBrackets_loop pre c"
proof (induction pre arbitrary: c)
  case Nil
  show ?case by (simp add: checkBrackets_loop_Cons checkBrackets_loop_Nil)
next
  case (Cons b bs)
  then show ?case by (simp add: checkBrackets_loop_Cons Let_def)
qed

lemma parseInstructions_loop_stop:
  "255 \<notin> set pre \<Longrightarrow>
   parseInstructions_loop (pre @ 255 # post) h p = parseInstructions_loop pre h p"
proof (induction pre arbitrary: h p)
  case Nil
  show ?case by (simp add: parseInstructions_loop_Cons parseInstructions_loop_Nil)
next
  case (Cons b bs)
  then show ?case
    by (auto simp add: parseInstructions_loop_Cons split: sum.splits)
qed

text \<open>
  Claim C10. A source byte 255 ends the source for both readers: whatever follows the first
  such byte, instruction symbols included, changes neither the verdict of \<open>checkBrackets\<close>
  nor what \<open>parseInstructions\<close> builds; both work on the prefix before it.
\<close>

theorem eof_byte_ends_source:
  assumes "255 \<notin> set pre"
  shows "checkBrackets (pre @ 255 # post) = checkBrackets pre \<and>
         parseInstructions (pre @ 255 # post) h instructionHead
           = parseInstructions pre h instructionHead"
  using assms
  by (simp add: checkBrackets_def parseInstructions_def
      checkBrackets_loop_stop parseInstructions_loop_stop)

theorem eof_byte_ends_source_witness:
  "(255 :: 8 word) \<notin> set (bytes_of ''+'') \<and>
   checkBrackets (bytes_of ''+'' @ 255 # bytes_of '']'') = checkBrackets (bytes_of ''+'') \<and>
   parseInstructions (bytes_of ''+'' @ 255 # bytes_of ''-'') (fresh_heap 0 8) 0
     = parseInstructions (bytes_of ''+'') (fresh_heap 0 8) 0"
proof -
  have h: "(255 :: 8 word) \<notin> set (bytes_of ''+'')" by (simp add: bytes_of_def)
  show ?thesis using h eof_byte_ends_source[OF h] by blast
qed

subsection \<open>The verdict of \<open>checkBrackets\<close>\<close>

lemma sint_int_small:
  "- (2 ^ 31) \<le> i \<Longrightarrow> i < 2 ^ 31 \<Longrightarrow> sint (word_of_int i :: 32 word) = i"
  by (simp add: sint_sbintrunc' signed_take_bit_int_eq_self)

text \<open>
  The loop started with a counter \<open>d\<close>, on a stream without the byte 255. A counter that
  reaches \<open>2^31\<close> has wrapped around to a negative \<open>int\<close>, and the loop returns 0.
\<close>

lemma sint_int_overflow:
  "sint (word_of_int (2 ^ 31) :: 32 word) = - (2 ^ 31)"
  by simp

lemma checkBrackets_loop_depth:
  "255 \<notin> set src \<Longrightarrow> 0 \<le> d \<Longrightarrow> d < 2 ^ 31 \<Longrightarrow>
   checkBrackets_loop src (word_of_int d) \<longleftrightarrow>
     (\<forall>k\<le>length src. 0 \<le> d + running_depth (take k src) \<and>
                      d + running_depth (take k src) < 2 ^ 31) \<and>
     d + running_depth src = 0"
proof (induction src arbitrary: d)
  case Nil
  have "(word_of_int d :: 32 word) = 0 \<longleftrightarrow> d = 0"
  proof
    assume "(word_of_int d :: 32 word) = 0"
    then have "sint (word_of_int d :: 32 word) = 0" by simp
    moreover have "sint (word_of_int d :: 32 word) = d"
      using Nil.prems by (intro sint_int_small) auto
    ultimately show "d = 0" by simp
  qed simp
  then show ?case using Nil.prems by (auto simp add: checkBrackets_loop_Nil)
next
  case (Cons b bs)
  let ?e = "if sint b = LOOP_START then 1 else if sint b = LOOP_END then - 1 else (0::int)"
  let ?d' = "d + ?e"
  let ?ok = "\<lambda>x::int. 0 \<le> x \<and> x < 2 ^ 31"
  have b: "b \<noteq> 255" and bs: "255 \<notin> set bs" using Cons.prems by auto
  have c2: "(let c1 = (if sint b = LOOP_START then word_of_int d + 1 else word_of_int d);
               c2 = (if sint b = LOOP_END then c1 - 1 else c1) in c2) = (word_of_int ?d' :: 32 word)"
    by (simp add: command_defs)
  have rng: "- 1 \<le> ?d'" "?d' \<le> 2 ^ 31" using Cons.prems by auto
  have neg: "sint (word_of_int ?d' :: 32 word) < 0 \<longleftrightarrow> \<not> ?ok ?d'"
  proof (cases "?d' = 2 ^ 31")
    case True
    have "sint (word_of_int ?d' :: 32 word) = - (2 ^ 31)"
      unfolding True by (rule sint_int_overflow)
    then show ?thesis using True by simp
  next
    case False
    then have "- (2 ^ 31) \<le> ?d'" "?d' < 2 ^ 31" using rng by simp_all
    then have "sint (word_of_int ?d' :: 32 word) = ?d'" by (rule sint_int_small)
    then show ?thesis using False rng by auto
  qed
  have "checkBrackets_loop (b # bs) (word_of_int d)
      = (if sint (word_of_int ?d' :: 32 word) < 0 then False
         else checkBrackets_loop bs (word_of_int ?d'))"
    using b c2 by (simp add: checkBrackets_loop_Cons Let_def command_defs)
  then have step: "checkBrackets_loop (b # bs) (word_of_int d)
      = (if \<not> ?ok ?d' then False else checkBrackets_loop bs (word_of_int ?d'))"
    unfolding neg .
  have all: "(\<forall>k\<le>length (b # bs). ?ok (d + running_depth (take k (b # bs))))
      \<longleftrightarrow> ?ok ?d' \<and> (\<forall>k\<le>length bs. ?ok (?d' + running_depth (take k bs)))"
  proof
    assume L: "\<forall>k\<le>length (b # bs). ?ok (d + running_depth (take k (b # bs)))"
    have "Suc 0 \<le> length (b # bs)" by simp
    then have "?ok (d + running_depth (take (Suc 0) (b # bs)))" using L by blast
    then have "?ok ?d'" by simp
    moreover have "?ok (?d' + running_depth (take k bs))" if "k \<le> length bs" for k
    proof -
      have "Suc k \<le> length (b # bs)" using that by simp
      then have "?ok (d + running_depth (take (Suc k) (b # bs)))" using L by blast
      then show ?thesis by (simp add: add.assoc)
    qed
    ultimately show "?ok ?d' \<and> (\<forall>k\<le>length bs. ?ok (?d' + running_depth (take k bs)))" by blast
  next
    assume R: "?ok ?d' \<and> (\<forall>k\<le>length bs. ?ok (?d' + running_depth (take k bs)))"
    show "\<forall>k\<le>length (b # bs). ?ok (d + running_depth (take k (b # bs)))"
    proof (intro allI impI)
      fix k assume k: "k \<le> length (b # bs)"
      show "?ok (d + running_depth (take k (b # bs)))"
      proof (cases k)
        case 0
        then show ?thesis using Cons.prems by simp
      next
        case (Suc j)
        then have "j \<le> length bs" using k by simp
        then have "?ok (?d' + running_depth (take j bs))" using R by blast
        then show ?thesis using Suc by (simp add: add.assoc)
      qed
    qed
  qed
  show ?case
  proof (cases "?ok ?d'")
    case False
    then show ?thesis using step all by auto
  next
    case True
    then have nn: "0 \<le> ?d'" "?d' < 2 ^ 31" by simp_all
    have IH: "checkBrackets_loop bs (word_of_int ?d') \<longleftrightarrow>
        (\<forall>k\<le>length bs. ?ok (?d' + running_depth (take k bs))) \<and> ?d' + running_depth bs = 0"
      using Cons.IH[OF bs nn] .
    have tot: "d + running_depth (b # bs) = ?d' + running_depth bs" by simp
    show ?thesis unfolding step all tot using True IH by simp
  qed
qed

lemma checkBrackets_depth:
  assumes "255 \<notin> set src"
  shows "checkBrackets src \<longleftrightarrow> depth_balanced src \<and> depth_bounded src"
  using checkBrackets_loop_depth[of src 0] assms
  by (auto simp add: checkBrackets_def depth_balanced_def depth_bounded_def)

lemma running_depth_le_length: "running_depth xs \<le> int (length xs)"
  by (induction xs) auto

lemma depth_bounded_short:
  assumes "length src < 2 ^ 31"
  shows "depth_bounded src"
  unfolding depth_bounded_def
proof (intro allI impI)
  fix k assume "k \<le> length src"
  have "running_depth (take k src) \<le> int (length (take k src))"
    by (rule running_depth_le_length)
  also have "\<dots> \<le> int (length src)" by simp
  also have "\<dots> < 2 ^ 31" using assms by simp
  finally show "running_depth (take k src) < 2 ^ 31" .
qed

text \<open>
  Claim C2 at the stream of the two bytes 255 and \<open>]\<close>. Its running depth is \<open>-1\<close> after the
  second byte, which is the end of the stream, and \<open>checkBrackets\<close> accepts it: \<open>command\<close> is
  a \<open>char\<close>, the byte 255 stored in it compares equal to \<open>EOF\<close>, and the loop stops there,
  before the unmatched \<open>]\<close>. The same \<open>]\<close> alone is rejected.
\<close>

theorem checkBrackets_accepts_unbalanced:
  "checkBrackets [255, 93] \<and> running_depth (take 2 [255, 93]) = - 1 \<and>
   running_depth [255, 93] = - 1 \<and> \<not> checkBrackets [93]"
  by (simp add: checkBrackets_def checkBrackets_loop_Cons checkBrackets_loop_Nil command_defs)

text \<open>
  Away from the byte 255 the verdict is the one of the running depth. For every source
  stream in which the byte 255 does not occur, \<open>checkBrackets\<close> succeeds if and only if the
  running depth is negative after no prefix, below \<open>2^31\<close> after every prefix (the counter is
  an \<open>int\<close>) and 0 at the end of the stream; so it fails on every such stream whose depth is
  negative after some prefix. On a stream of fewer than \<open>2^31\<close> bytes the depth is below
  \<open>2^31\<close> throughout.
\<close>

theorem checkBrackets_iff_depth_balanced:
  assumes "255 \<notin> set src"
  shows "(checkBrackets src \<longleftrightarrow>
            (\<forall>k\<le>length src. 0 \<le> running_depth (take k src) \<and>
                             running_depth (take k src) < 2 ^ 31) \<and>
            running_depth src = 0) \<and>
         ((\<exists>k\<le>length src. running_depth (take k src) < 0) \<longrightarrow> \<not> checkBrackets src) \<and>
         (length src < 2 ^ 31 \<longrightarrow>
            (checkBrackets src \<longleftrightarrow>
               (\<forall>k\<le>length src. 0 \<le> running_depth (take k src)) \<and> running_depth src = 0))"
proof -
  have d: "checkBrackets src \<longleftrightarrow> depth_balanced src \<and> depth_bounded src"
    by (rule checkBrackets_depth[OF assms])
  have 1: "checkBrackets src \<longleftrightarrow>
      (\<forall>k\<le>length src. 0 \<le> running_depth (take k src) \<and>
                       running_depth (take k src) < 2 ^ 31) \<and>
      running_depth src = 0"
    unfolding d depth_balanced_def depth_bounded_def by blast
  have 2: "\<not> checkBrackets src" if "\<exists>k\<le>length src. running_depth (take k src) < 0"
    using 1 that by (meson not_less)
  have 3: "checkBrackets src \<longleftrightarrow>
      (\<forall>k\<le>length src. 0 \<le> running_depth (take k src)) \<and> running_depth src = 0"
    if "length src < 2 ^ 31"
    using d depth_bounded_short[OF that] by (simp add: depth_balanced_def)
  show ?thesis using 1 2 3 by blast
qed

theorem checkBrackets_iff_depth_balanced_instances:
  "(255 :: 8 word) \<notin> set (bytes_of ''[+]'') \<and>
   checkBrackets (bytes_of ''[+]'') \<and> running_depth (bytes_of ''[+]'') = 0 \<and>
   (255 :: 8 word) \<notin> set (bytes_of '']['') \<and>
   1 \<le> length (bytes_of '']['') \<and> running_depth (take 1 (bytes_of '']['')) < 0 \<and>
   \<not> checkBrackets (bytes_of '']['')"
proof -
  have a: "(255 :: 8 word) \<notin> set (bytes_of ''[+]'')"
    by (simp add: bytes_of_def)
  have b: "(255 :: 8 word) \<notin> set (bytes_of '']['')"
    by (simp add: bytes_of_def)
  have b': "1 \<le> length (bytes_of '']['')" "running_depth (take 1 (bytes_of '']['')) < 0"
    by (simp_all add: bytes_of_def command_defs)
  have c: "checkBrackets (bytes_of ''[+]'')"
    by (simp add: bytes_of_def checkBrackets_def checkBrackets_loop_Cons
        checkBrackets_loop_Nil command_defs)
  show ?thesis
    using a b b' c checkBrackets_iff_depth_balanced[OF a]
      checkBrackets_iff_depth_balanced[OF b] by blast
qed

section \<open>The input instruction at the end of the input\<close>

lemma inputData_exhausted:
  "stdin s = [] \<Longrightarrow>
   get_data (mem (inputData s p)) p = word_of_int EOF \<and> stdin (inputData s p) = []"
  by (simp add: inputData_def set_data_def get_data_def)

lemma fold_inputData_exhausted:
  "stdin s = [] \<Longrightarrow> ps \<noteq> [] \<Longrightarrow>
   get_data (mem (fold (\<lambda>p s. inputData s p) ps s)) (last ps) = word_of_int EOF \<and>
   stdin (fold (\<lambda>p s. inputData s p) ps s) = []"
proof (induction ps arbitrary: s)
  case Nil
  then show ?case by simp
next
  case (Cons p ps)
  show ?case
  proof (cases "ps = []")
    case True
    then show ?thesis using inputData_exhausted[OF Cons.prems(1), of p] by simp
  next
    case False
    have "stdin (inputData s p) = []" using inputData_exhausted[OF Cons.prems(1)] by simp
    from Cons.IH[OF this False] show ?thesis using False by simp
  qed
qed

lemma execCommand_input:
  "sint (get_data (mem s) (InstructionPointer s)) = INPUT_DATA \<Longrightarrow>
   execCommand s = Some (Inr (inputData s (DataPointer s)))"
  by (simp add: execCommand_def Let_def command_defs)

text \<open>
  Claim C8. Once the input is exhausted, the input instruction stores the \<open>char\<close> made of
  \<open>EOF\<close>, the byte 255, in the current cell and leaves the input exhausted. So after
  any number of such reads, at the cells \<open>ps\<close> in turn (\<open>K = length ps \<ge> 1\<close>), the cell of the
  last read holds what the cell of the first read held after the first read.
\<close>

theorem input_past_end_is_pinned:
  assumes "stdin s = []" and "ps \<noteq> []"
  shows "get_data (mem (fold (\<lambda>p s. inputData s p) ps s)) (last ps)
           = get_data (mem (inputData s (hd ps))) (hd ps) \<and>
         get_data (mem (inputData s (hd ps))) (hd ps) = 255 \<and>
         stdin (fold (\<lambda>p s. inputData s p) ps s) = [] \<and>
         (sint (get_data (mem s) (InstructionPointer s)) = INPUT_DATA \<longrightarrow>
            execCommand s = Some (Inr (inputData s (DataPointer s))))"
  using fold_inputData_exhausted[OF assms] inputData_exhausted[OF assms(1), of "hd ps"]
    execCommand_input[of s]
  by (simp add: EOF_def)

theorem input_past_end_is_pinned_witness:
  "stdin input_state = [] \<and> [0, 0, 0 :: nat] \<noteq> [] \<and>
   get_data (mem (fold (\<lambda>p s. inputData s p) [0, 0, 0] input_state)) 0
     = get_data (mem (inputData input_state 0)) 0 \<and>
   get_data (mem (inputData input_state 0)) 0 = 255 \<and>
   sint (get_data (mem input_state) (InstructionPointer input_state)) = INPUT_DATA \<and>
   execCommand input_state = Some (Inr (inputData input_state (DataPointer input_state)))"
proof -
  have a: "stdin input_state = []" "[0, 0, 0 :: nat] \<noteq> []"
    by (simp_all add: input_state_def)
  have b: "sint (get_data (mem input_state) (InstructionPointer input_state)) = INPUT_DATA"
    by (simp add: input_state_def get_data_def command_defs)
  show ?thesis
    using a b input_past_end_is_pinned[OF a] by simp
qed

section \<open>Tapes: moving and growing\<close>

lemmas heap_defs = set_next_def set_prev_def set_data_def get_data_def malloc_def

lemma tape_nth_less: "tape h cs \<Longrightarrow> i < length cs \<Longrightarrow> cs ! i < used h"
  by (simp add: tape_def)

lemma tape_next:
  "tape h cs \<Longrightarrow> i < length cs \<Longrightarrow>
   next_ptr (blocks h (cs ! i)) = (if Suc i < length cs then Some (cs ! Suc i) else None)"
  by (simp add: tape_def)

lemma tape_prev:
  "tape h cs \<Longrightarrow> i < length cs \<Longrightarrow>
   prev_ptr (blocks h (cs ! i)) = (if i = 0 then None else Some (cs ! (i - 1)))"
  by (simp add: tape_def)

lemma tape_frame:
  assumes "tape h cs" "\<forall>a\<in>set cs. blocks h' a = blocks h a" "used h \<le> used h'"
  shows "tape h' cs"
  using assms unfolding tape_def by auto

lemma moveForward_inside:
  "tape h cs \<Longrightarrow> Suc i < length cs \<Longrightarrow> moveForward h (cs ! i) = Inr (h, cs ! Suc i)"
  by (simp add: moveForward_def tape_next)

lemma moveBackward_inside:
  "tape h cs \<Longrightarrow> i < length cs \<Longrightarrow> 0 < i \<Longrightarrow> moveBackward h (cs ! i) = Inr (h, cs ! (i - 1))"
  by (simp add: moveBackward_def tape_prev)

lemma moveForward_last:
  "tape h cs \<Longrightarrow> moveForward h (last cs) =
     (if used h < limit h then Inr (alloc_next h (last cs), used h) else Inl OutOfMemory)"
proof -
  assume t: "tape h cs"
  then have ne: "cs \<noteq> []" by (simp add: tape_def)
  have "next_ptr (blocks h (cs ! (length cs - 1))) = None"
    using tape_next[OF t, of "length cs - 1"] ne by simp
  then have "next_ptr (blocks h (last cs)) = None" using ne by (simp add: last_conv_nth)
  then show ?thesis by (simp add: moveForward_def malloc_def alloc_next_def Let_def)
qed

lemma moveBackward_first:
  "tape h cs \<Longrightarrow> moveBackward h (hd cs) =
     (if used h < limit h then Inr (alloc_prev h (hd cs), used h) else Inl OutOfMemory)"
proof -
  assume t: "tape h cs"
  then have ne: "cs \<noteq> []" by (simp add: tape_def)
  have "prev_ptr (blocks h (cs ! 0)) = None"
    using tape_prev[OF t, of 0] ne by simp
  then have "prev_ptr (blocks h (hd cs)) = None" using ne by (simp add: hd_conv_nth)
  then show ?thesis by (simp add: moveBackward_def malloc_def alloc_prev_def Let_def)
qed

lemma alloc_next_simps:
  "used (alloc_next h p) = Suc (used h)"
  "limit (alloc_next h p) = limit h"
  "get_data (alloc_next h p) (used h) = 0"
  "a \<noteq> used h \<Longrightarrow> get_data (alloc_next h p) a = get_data h a"
  "a \<noteq> used h \<Longrightarrow> a \<noteq> p \<Longrightarrow> blocks (alloc_next h p) a = blocks h a"
  "a \<noteq> used h \<Longrightarrow> prev_ptr (blocks (alloc_next h p) a) = prev_ptr (blocks h a)"
  "p \<noteq> used h \<Longrightarrow> next_ptr (blocks (alloc_next h p) p) = Some (used h)"
  "p \<noteq> used h \<Longrightarrow> next_ptr (blocks (alloc_next h p) (used h)) = None"
  "p \<noteq> used h \<Longrightarrow> prev_ptr (blocks (alloc_next h p) (used h)) = Some p"
  by (simp_all add: alloc_next_def heap_defs)

lemma alloc_prev_simps:
  "used (alloc_prev h p) = Suc (used h)"
  "limit (alloc_prev h p) = limit h"
  "get_data (alloc_prev h p) (used h) = 0"
  "a \<noteq> used h \<Longrightarrow> get_data (alloc_prev h p) a = get_data h a"
  "a \<noteq> used h \<Longrightarrow> a \<noteq> p \<Longrightarrow> blocks (alloc_prev h p) a = blocks h a"
  "a \<noteq> used h \<Longrightarrow> next_ptr (blocks (alloc_prev h p) a) = next_ptr (blocks h a)"
  "p \<noteq> used h \<Longrightarrow> prev_ptr (blocks (alloc_prev h p) p) = Some (used h)"
  "p \<noteq> used h \<Longrightarrow> prev_ptr (blocks (alloc_prev h p) (used h)) = None"
  "p \<noteq> used h \<Longrightarrow> next_ptr (blocks (alloc_prev h p) (used h)) = Some p"
  by (simp_all add: alloc_prev_def heap_defs)

lemma tape_alloc_next:
  assumes t: "tape h cs"
  shows "tape (alloc_next h (last cs)) (cs @ [used h])"
proof -
  let ?n = "used h" and ?p = "last cs" and ?h = "alloc_next h (last cs)"
  from t have ne: "cs \<noteq> []" and d: "distinct cs" and lt: "\<forall>a\<in>set cs. a < ?n"
    by (simp_all add: tape_def)
  have pn: "?p \<noteq> ?n" using ne lt last_in_set by fastforce
  have nn: "?n \<notin> set cs" using lt by auto
  have links: "next_ptr (blocks ?h ((cs @ [?n]) ! i))
        = (if Suc i < length (cs @ [?n]) then Some ((cs @ [?n]) ! Suc i) else None) \<and>
      prev_ptr (blocks ?h ((cs @ [?n]) ! i))
        = (if i = 0 then None else Some ((cs @ [?n]) ! (i - 1)))"
    if i: "i < length (cs @ [?n])" for i
  proof -
    consider "Suc i < length cs" | "Suc i = length cs" | "i = length cs" using i by fastforce
    then show ?thesis
    proof cases
      case 1
      then have "cs ! i \<in> set cs" by simp
      then have a1: "cs ! i \<noteq> ?n" using nn by metis
      have a2: "cs ! i \<noteq> ?p"
        using 1 d ne by (auto simp: last_conv_nth nth_eq_iff_index_eq)
      note a = a1 a2
      have b: "i - 1 < length cs" using 1 by simp
      show ?thesis using 1 a b tape_next[OF t, of i] tape_prev[OF t, of i]
        by (simp add: nth_append alloc_next_simps)
    next
      case 2
      then have "i = length cs - 1" by simp
      then have a: "cs ! i = ?p" using ne by (simp add: last_conv_nth)
      have b: "i - 1 < length cs" "i < length cs" using 2 by simp_all
      have c: "cs ! i \<noteq> ?n" using a pn by simp
      show ?thesis using 2 a b c pn tape_prev[OF t, of i]
        by (simp add: nth_append alloc_next_simps)
    next
      case 3
      then show ?thesis using pn ne by (simp add: nth_append alloc_next_simps last_conv_nth)
    qed
  qed
  show ?thesis
    unfolding tape_def using ne d nn lt links by (auto simp: alloc_next_simps less_Suc_eq)
qed

lemma tape_alloc_prev:
  assumes t: "tape h cs"
  shows "tape (alloc_prev h (hd cs)) (used h # cs)"
proof -
  let ?n = "used h" and ?p = "hd cs" and ?h = "alloc_prev h (hd cs)"
  from t have ne: "cs \<noteq> []" and d: "distinct cs" and lt: "\<forall>a\<in>set cs. a < ?n"
    by (simp_all add: tape_def)
  have pn: "?p \<noteq> ?n" using ne lt hd_in_set by fastforce
  have nn: "?n \<notin> set cs" using lt by auto
  have links: "next_ptr (blocks ?h ((?n # cs) ! i))
        = (if Suc i < length (?n # cs) then Some ((?n # cs) ! Suc i) else None) \<and>
      prev_ptr (blocks ?h ((?n # cs) ! i))
        = (if i = 0 then None else Some ((?n # cs) ! (i - 1)))"
    if i: "i < length (?n # cs)" for i
  proof -
    consider "i = 0" | "i = 1" | j where "i = Suc (Suc j)" "Suc j < length cs"
      using i by (cases i; cases "i - 1") auto
    then show ?thesis
    proof cases
      case 1
      then show ?thesis using pn ne by (simp add: alloc_prev_simps hd_conv_nth)
    next
      case 2
      then have a: "cs ! 0 = ?p" using ne by (auto simp: hd_conv_nth)
      show ?thesis using 2 a pn ne tape_next[OF t, of 0]
        by (simp add: alloc_prev_simps)
    next
      case 3
      then have "cs ! Suc j \<in> set cs" by simp
      then have a1: "cs ! Suc j \<noteq> ?n" using nn by metis
      have a2: "cs ! Suc j \<noteq> ?p"
        using 3 d ne by (auto simp: hd_conv_nth nth_eq_iff_index_eq)
      note a = a1 a2
      show ?thesis using 3 a tape_next[OF t, of "Suc j"] tape_prev[OF t, of "Suc j"]
        by (simp add: alloc_prev_simps)
    qed
  qed
  show ?thesis
    unfolding tape_def using ne d nn lt links by (auto simp: alloc_prev_simps less_Suc_eq)
qed

subsection \<open>Moving there and back\<close>

lemma moveN_forward_inside:
  "tape h cs \<Longrightarrow> j + n < length cs \<Longrightarrow> moveN moveForward n h (cs ! j) = Inr (h, cs ! (j + n))"
proof (induction n arbitrary: j)
  case 0
  show ?case by simp
next
  case (Suc n)
  have "moveForward h (cs ! j) = Inr (h, cs ! Suc j)"
    using Suc.prems by (intro moveForward_inside) auto
  moreover have "moveN moveForward n h (cs ! Suc j) = Inr (h, cs ! (Suc j + n))"
    using Suc.prems by (intro Suc.IH) auto
  ultimately show ?case by simp
qed

lemma moveN_backward_inside:
  "tape h cs \<Longrightarrow> j < length cs \<Longrightarrow> n \<le> j \<Longrightarrow>
   moveN moveBackward n h (cs ! j) = Inr (h, cs ! (j - n))"
proof (induction n arbitrary: j)
  case 0
  show ?case by simp
next
  case (Suc n)
  have "moveBackward h (cs ! j) = Inr (h, cs ! (j - 1))"
    using Suc.prems by (intro moveBackward_inside) auto
  moreover have "moveN moveBackward n h (cs ! (j - 1)) = Inr (h, cs ! (j - 1 - n))"
    using Suc.prems by (intro Suc.IH) auto
  ultimately show ?case by simp
qed

lemma moveN_forward:
  "tape h cs \<Longrightarrow> i < length cs \<Longrightarrow> used h + n \<le> limit h \<Longrightarrow>
   \<exists>h' ds. moveN moveForward n h (cs ! i) = Inr (h', (cs @ ds) ! (i + n)) \<and>
     tape h' (cs @ ds) \<and> i + n < length (cs @ ds) \<and>
     (\<forall>a<used h. get_data h' a = get_data h a) \<and>
     (\<forall>a\<in>set ds. used h \<le> a) \<and>
     used h \<le> used h' \<and> used h' \<le> used h + n \<and> limit h' = limit h"
proof (induction n arbitrary: h cs i)
  case 0
  then show ?case by (intro exI[of _ h] exI[of _ "[]"]) simp
next
  case (Suc n)
  show ?case
  proof (cases "Suc i < length cs")
    case True
    have mv: "moveForward h (cs ! i) = Inr (h, cs ! Suc i)"
      using Suc.prems True by (intro moveForward_inside) auto
    have "used h + n \<le> limit h" using Suc.prems by simp
    from Suc.IH[OF Suc.prems(1) True this] obtain h' ds where
      "moveN moveForward n h (cs ! Suc i) = Inr (h', (cs @ ds) ! (Suc i + n))"
      "tape h' (cs @ ds)" "Suc i + n < length (cs @ ds)"
      "\<forall>a<used h. get_data h' a = get_data h a" "\<forall>a\<in>set ds. used h \<le> a"
      "used h \<le> used h'" "used h' \<le> used h + n" "limit h' = limit h"
      by blast
    then show ?thesis using mv
      by (intro exI[of _ h'] exI[of _ ds]) simp
  next
    case False
    then have i: "Suc i = length cs" using Suc.prems by simp
    then have l: "cs ! i = last cs" by (metis diff_Suc_1 last_conv_nth length_0_conv nat.distinct(1))
    let ?h = "alloc_next h (last cs)"
    have mem: "used h < limit h" using Suc.prems by simp
    have mv: "moveForward h (cs ! i) = Inr (?h, used h)"
      using moveForward_last[OF Suc.prems(1)] mem l by simp
    have t: "tape ?h (cs @ [used h])" by (rule tape_alloc_next[OF Suc.prems(1)])
    have i': "Suc i < length (cs @ [used h])" using i by simp
    have m': "used ?h + n \<le> limit ?h" using Suc.prems by (simp add: alloc_next_simps)
    from Suc.IH[OF t i' m'] obtain h' ds where r:
      "moveN moveForward n ?h ((cs @ [used h]) ! Suc i) = Inr (h', ((cs @ [used h]) @ ds) ! (Suc i + n))"
      "tape h' ((cs @ [used h]) @ ds)" "Suc i + n < length ((cs @ [used h]) @ ds)"
      "\<forall>a<used ?h. get_data h' a = get_data ?h a" "\<forall>a\<in>set ds. used ?h \<le> a"
      "used ?h \<le> used h'" "used h' \<le> used ?h + n" "limit h' = limit ?h"
      by blast
    have e: "(cs @ [used h]) ! Suc i = used h" using i by (simp add: nth_append)
    have d: "\<forall>a<used h. get_data h' a = get_data h a"
      using r(4) by (simp add: alloc_next_simps)
    show ?thesis
      using mv r e d
      by (intro exI[of _ h'] exI[of _ "used h # ds"]) (auto simp: alloc_next_simps)
  qed
qed

lemma moveN_backward:
  "tape h cs \<Longrightarrow> i < length cs \<Longrightarrow> used h + n \<le> limit h \<Longrightarrow>
   \<exists>h' ds. moveN moveBackward n h (cs ! i) = Inr (h', (ds @ cs) ! (length ds + i - n)) \<and>
     tape h' (ds @ cs) \<and> n \<le> length ds + i \<and>
     (\<forall>a<used h. get_data h' a = get_data h a) \<and>
     (\<forall>a\<in>set ds. used h \<le> a) \<and>
     used h \<le> used h' \<and> used h' \<le> used h + n \<and> limit h' = limit h"
proof (induction n arbitrary: h cs i)
  case 0
  then show ?case by (intro exI[of _ h] exI[of _ "[]"]) simp
next
  case (Suc n)
  show ?case
  proof (cases "0 < i")
    case True
    have mv: "moveBackward h (cs ! i) = Inr (h, cs ! (i - 1))"
      using Suc.prems True by (intro moveBackward_inside) auto
    have "used h + n \<le> limit h" "i - 1 < length cs" using Suc.prems by simp_all
    from Suc.IH[OF Suc.prems(1) this(2) this(1)] obtain h' ds where
      "moveN moveBackward n h (cs ! (i - 1)) = Inr (h', (ds @ cs) ! (length ds + (i - 1) - n))"
      "tape h' (ds @ cs)" "n \<le> length ds + (i - 1)"
      "\<forall>a<used h. get_data h' a = get_data h a" "\<forall>a\<in>set ds. used h \<le> a"
      "used h \<le> used h'" "used h' \<le> used h + n" "limit h' = limit h"
      by blast
    moreover have "length ds + (i - 1) - n = length ds + i - Suc n" using True by simp
    ultimately show ?thesis using mv True
      by (intro exI[of _ h'] exI[of _ ds]) auto
  next
    case False
    then have i: "i = 0" by simp
    have ne: "cs \<noteq> []" using Suc.prems by auto
    then have l: "cs ! i = hd cs" using i by (simp add: hd_conv_nth)
    let ?h = "alloc_prev h (hd cs)"
    have mem: "used h < limit h" using Suc.prems by simp
    have mv: "moveBackward h (cs ! i) = Inr (?h, used h)"
      using moveBackward_first[OF Suc.prems(1)] mem l by simp
    have t: "tape ?h (used h # cs)" by (rule tape_alloc_prev[OF Suc.prems(1)])
    have i': "0 < length (used h # cs)" by simp
    have m': "used ?h + n \<le> limit ?h" using Suc.prems by (simp add: alloc_prev_simps)
    from Suc.IH[OF t i' m'] obtain h' ds where r:
      "moveN moveBackward n ?h ((used h # cs) ! 0) = Inr (h', (ds @ used h # cs) ! (length ds + 0 - n))"
      "tape h' (ds @ used h # cs)" "n \<le> length ds + 0"
      "\<forall>a<used ?h. get_data h' a = get_data ?h a" "\<forall>a\<in>set ds. used ?h \<le> a"
      "used ?h \<le> used h'" "used h' \<le> used ?h + n" "limit h' = limit ?h"
      by blast
    have d: "\<forall>a<used h. get_data h' a = get_data h a"
      using r(4) by (simp add: alloc_prev_simps)
    show ?thesis
      using mv r d i
      by (intro exI[of _ h'] exI[of _ "ds @ [used h]"]) (auto simp: alloc_prev_simps)
  qed
qed

lemma forward_backward_roundtrip:
  assumes t: "tape h cs" and p: "p \<in> set cs" and m: "used h + n \<le> limit h"
  shows "\<exists>h1 q. moveN moveForward n h p = Inr (h1, q) \<and>
           moveN moveBackward n h1 q = Inr (h1, p) \<and>
           map (get_data h1) cs = map (get_data h) cs"
proof -
  from p obtain i where i: "i < length cs" "p = cs ! i" by (metis in_set_conv_nth)
  from moveN_forward[OF t i(1) m] obtain h1 ds where r:
    "moveN moveForward n h (cs ! i) = Inr (h1, (cs @ ds) ! (i + n))"
    "tape h1 (cs @ ds)" "i + n < length (cs @ ds)"
    "\<forall>a<used h. get_data h1 a = get_data h a"
    by blast
  have "moveN moveBackward n h1 ((cs @ ds) ! (i + n)) = Inr (h1, (cs @ ds) ! (i + n - n))"
    using r by (intro moveN_backward_inside) auto
  then have b: "moveN moveBackward n h1 ((cs @ ds) ! (i + n)) = Inr (h1, p)"
    using i by (simp add: nth_append)
  have "map (get_data h1) cs = map (get_data h) cs"
    using r(4) tape_nth_less[OF t] by (auto simp: in_set_conv_nth)
  then show ?thesis using r(1) b i by blast
qed

lemma backward_forward_roundtrip:
  assumes t: "tape h cs" and p: "p \<in> set cs" and m: "used h + n \<le> limit h"
  shows "\<exists>h1 q. moveN moveBackward n h p = Inr (h1, q) \<and>
           moveN moveForward n h1 q = Inr (h1, p) \<and>
           map (get_data h1) cs = map (get_data h) cs"
proof -
  from p obtain i where i: "i < length cs" "p = cs ! i" by (metis in_set_conv_nth)
  from moveN_backward[OF t i(1) m] obtain h1 ds where r:
    "moveN moveBackward n h (cs ! i) = Inr (h1, (ds @ cs) ! (length ds + i - n))"
    "tape h1 (ds @ cs)" "n \<le> length ds + i"
    "\<forall>a<used h. get_data h1 a = get_data h a"
    by blast
  have "moveN moveForward n h1 ((ds @ cs) ! (length ds + i - n))
      = Inr (h1, (ds @ cs) ! (length ds + i - n + n))"
    using r i by (intro moveN_forward_inside) auto
  then have b: "moveN moveForward n h1 ((ds @ cs) ! (length ds + i - n)) = Inr (h1, p)"
    using i r(3) by (simp add: nth_append)
  have "map (get_data h1) cs = map (get_data h) cs"
    using r(4) tape_nth_less[OF t] by (auto simp: in_set_conv_nth)
  then show ?thesis using r(1) b i by blast
qed

section \<open>What the loader builds\<close>

lemma set_data_ptrs:
  "next_ptr (blocks (set_data h p v) a) = next_ptr (blocks h a)"
  "prev_ptr (blocks (set_data h p v) a) = prev_ptr (blocks h a)"
  "used (set_data h p v) = used h"
  "limit (set_data h p v) = limit h"
  by (simp_all add: set_data_def)

lemma tape_set_data: "tape (set_data h p v) cs = tape h cs"
  by (simp add: tape_def set_data_ptrs)

lemma set_data_vals:
  "get_data (set_data h p v) p = v"
  "a \<noteq> p \<Longrightarrow> get_data (set_data h p v) a = get_data h a"
  "a \<noteq> p \<Longrightarrow> blocks (set_data h p v) a = blocks h a"
  by (simp_all add: heap_defs)

lemmas set_data_simps = set_data_ptrs(3,4) set_data_vals

lemma parseInstructions_loop_takeWhile:
  "parseInstructions_loop src h p = parseInstructions_loop (takeWhile (\<lambda>b. b \<noteq> 255) src) h p"
proof (induction src arbitrary: h p)
  case Nil
  show ?case by simp
next
  case (Cons b bs)
  show ?case
  proof (cases "b = 255")
    case True
    then show ?thesis by (simp add: parseInstructions_loop_Cons parseInstructions_loop_Nil)
  next
    case False
    then show ?thesis
      using Cons.IH by (auto simp add: parseInstructions_loop_Cons split: sum.splits)
  qed
qed

lemma checkBrackets_loop_takeWhile:
  "checkBrackets_loop src c = checkBrackets_loop (takeWhile (\<lambda>b. b \<noteq> 255) src) c"
proof (induction src arbitrary: c)
  case Nil
  show ?case by simp
next
  case (Cons b bs)
  show ?case
  proof (cases "b = 255")
    case True
    then show ?thesis by (simp add: checkBrackets_loop_Cons checkBrackets_loop_Nil)
  next
    case False
    then show ?thesis
      using Cons.IH by (simp add: checkBrackets_loop_Cons Let_def)
  qed
qed

text \<open>What the loop of the loader builds, on a stream without the byte 255.\<close>

lemma parseInstructions_loop_tape:
  "tape h cs \<Longrightarrow> 255 \<notin> set src \<Longrightarrow> used h + length (filter is_command src) \<le> limit h \<Longrightarrow>
   \<exists>h'. parseInstructions_loop src h (last cs) = Inr h' \<and>
     used h' = used h + length (filter is_command src) \<and> limit h' = limit h \<and>
     tape h' (cs @ [used h ..< used h']) \<and>
     map (get_data h') (butlast cs) = map (get_data h) (butlast cs) \<and>
     map (get_data h') (last cs # [used h ..< used h'])
       = (if filter is_command src = [] then [get_data h (last cs)]
          else filter is_command src @ [0]) \<and>
     (\<forall>a<used h. a \<notin> set cs \<longrightarrow> blocks h' a = blocks h a)"
proof (induction src arbitrary: h cs)
  case Nil
  then show ?case by (simp add: parseInstructions_loop_Nil)
next
  case (Cons b bs)
  have b: "b \<noteq> 255" and bs: "255 \<notin> set bs" using Cons.prems by auto
  from Cons.prems have ne: "cs \<noteq> []" by (simp add: tape_def)
  show ?case
  proof (cases "is_command b")
    case False
    have F: "filter is_command (b # bs) = filter is_command bs" using False by simp
    have R: "parseInstructions_loop (b # bs) h (last cs) = parseInstructions_loop bs h (last cs)"
      using False b by (simp add: parseInstructions_loop_Cons)
    have "used h + length (filter is_command bs) \<le> limit h" using Cons.prems False by simp
    from Cons.IH[OF Cons.prems(1) bs this] show ?thesis
      unfolding F R .
  next
    case True
    let ?h1 = "set_data h (last cs) b"
    let ?h2 = "alloc_next ?h1 (last cs)"
    let ?u = "used h"
    have t1: "tape ?h1 cs" using Cons.prems(1) by (simp add: tape_set_data)
    have mem: "used ?h1 < limit ?h1" using Cons.prems True by (simp add: set_data_simps)
    have mv: "moveForward ?h1 (last cs) = Inr (?h2, ?u)"
      using moveForward_last[OF t1] mem by (simp add: set_data_simps)
    have t2: "tape ?h2 (cs @ [?u])"
      using tape_alloc_next[OF t1] by (simp add: set_data_simps)
    have m2: "used ?h2 + length (filter is_command bs) \<le> limit ?h2"
      using Cons.prems True by (simp add: alloc_next_simps set_data_simps)
    from Cons.IH[OF t2 bs m2] obtain h' where r:
      "parseInstructions_loop bs ?h2 (last (cs @ [?u])) = Inr h'"
      "used h' = used ?h2 + length (filter is_command bs)" "limit h' = limit ?h2"
      "tape h' ((cs @ [?u]) @ [used ?h2 ..< used h'])"
      "map (get_data h') (butlast (cs @ [?u])) = map (get_data ?h2) (butlast (cs @ [?u]))"
      "map (get_data h') (last (cs @ [?u]) # [used ?h2 ..< used h'])
         = (if filter is_command bs = [] then [get_data ?h2 (last (cs @ [?u]))]
            else filter is_command bs @ [0])"
      "\<forall>a<used ?h2. a \<notin> set (cs @ [?u]) \<longrightarrow> blocks h' a = blocks ?h2 a"
      by blast
    have u2: "used ?h2 = Suc ?u" by (simp add: alloc_next_simps set_data_simps)
    have lt: "\<forall>a\<in>set cs. a < ?u" using Cons.prems(1) by (simp add: tape_def)
    then have lu: "last cs \<noteq> ?u" using ne last_in_set by fastforce
    have run: "parseInstructions_loop (b # bs) h (last cs) = Inr h'"
      using b True mv r(1) by (simp add: parseInstructions_loop_Cons)
    have "?u < used h'" using r(2) u2 by simp
    then have upt: "[?u ..< used h'] = ?u # [Suc ?u ..< used h']"
      by (rule upt_conv_Cons)
    have old: "get_data ?h2 a = (if a = last cs then b else get_data h a)" if "a \<in> set cs" for a
      using that lt by (auto simp: alloc_next_simps set_data_simps)
    have cs_vals: "map (get_data h') cs = map (get_data ?h2) cs"
      using r(5) by simp
    have v1: "map (get_data h') (butlast cs) = map (get_data h) (butlast cs)"
    proof -
      have "map (get_data h') (butlast cs) = map (get_data ?h2) (butlast cs)"
        using cs_vals by (metis map_butlast)
      also have "\<dots> = map (get_data h) (butlast cs)"
      proof (rule map_cong[OF refl])
        fix a assume a: "a \<in> set (butlast cs)"
        then have "a \<in> set cs" by (rule in_set_butlastD)
        moreover have "a \<noteq> last cs"
          using a Cons.prems(1) ne
          by (metis append_butlast_last_id distinct_butlast not_distinct_conv_prefix tape_def)
        ultimately show "get_data ?h2 a = get_data h a" using old by simp
      qed
      finally show ?thesis .
    qed
    have "get_data h' (last cs) = get_data ?h2 (last cs)"
      using cs_vals ne by (metis last_in_set map_eq_conv)
    then have v2: "get_data h' (last cs) = b" using old ne by simp
    have z: "get_data ?h2 ?u = 0"
      using alloc_next_simps(3)[of ?h1 "last cs"] by (simp add: set_data_simps)
    have v3: "map (get_data h') (?u # [Suc ?u ..< used h']) = filter is_command bs @ [0]"
      using r(6) u2 z by (simp split: if_splits)
    have fr: "\<forall>a<?u. a \<notin> set cs \<longrightarrow> blocks h' a = blocks h a"
    proof (intro allI impI)
      fix a assume a: "a < ?u" "a \<notin> set cs"
      then have n: "a \<noteq> last cs" "a \<noteq> used ?h1" using ne by (auto simp: set_data_simps)
      have "blocks h' a = blocks ?h2 a" using r(7) a u2 by simp
      also have "\<dots> = blocks ?h1 a" using n by (simp add: alloc_next_simps)
      also have "\<dots> = blocks h a" using n by (simp add: set_data_simps)
      finally show "blocks h' a = blocks h a" .
    qed
    show ?thesis
      using run r(2,3,4) u2 v1 v2 v3 fr upt True
      by (intro exI[of _ h']) (simp add: alloc_next_simps set_data_simps)
  qed
qed

lemma init_heads_simps:
  "used (init_heads h0) = used h0 + 2"
  "limit (init_heads h0) = limit h0"
  "get_data (init_heads h0) (Suc (used h0)) = 0"
  "get_data (init_heads h0) (used h0) = get_data h0 (used h0)"
  "next_ptr (blocks (init_heads h0) (used h0)) = None"
  "prev_ptr (blocks (init_heads h0) (used h0)) = None"
  "next_ptr (blocks (init_heads h0) (Suc (used h0))) = None"
  "prev_ptr (blocks (init_heads h0) (Suc (used h0))) = None"
  by (simp_all add: init_heads_def heap_defs Let_def)

lemma tape_init_heads:
  "tape (init_heads h0) [used h0]" "tape (init_heads h0) [Suc (used h0)]"
  by (simp_all add: tape_def init_heads_simps)

lemma loadProgram_unfold:
  "checkBrackets src \<Longrightarrow> used h0 + 2 \<le> limit h0 \<Longrightarrow>
   loadProgram src h0 input =
     (case parseInstructions src (init_heads h0) (used h0) of
        Inl e \<Rightarrow> Inl e
      | Inr h6 \<Rightarrow> Inr \<lparr>mem = h6, stdin = input, stdout = [],
            InstructionPointer = used h0, DataPointer = Suc (used h0)\<rparr>)"
  by (simp add: loadProgram_def malloc_def Let_def init_heads_def)

lemma loadProgram_tape:
  assumes cb: "checkBrackets src" and m: "used h0 + 2 + length (loaded src) \<le> limit h0"
  shows "\<exists>s. loadProgram src h0 input = Inr s \<and>
    InstructionPointer s = used h0 \<and> DataPointer s = Suc (used h0) \<and>
    stdin s = input \<and> stdout s = [] \<and>
    used (mem s) = used h0 + 2 + length (loaded src) \<and> limit (mem s) = limit h0 \<and>
    tape (mem s) (used h0 # [used h0 + 2 ..< used (mem s)]) \<and>
    tape (mem s) [Suc (used h0)] \<and>
    get_data (mem s) (Suc (used h0)) = 0 \<and>
    map (get_data (mem s)) (used h0 # [used h0 + 2 ..< used (mem s)])
      = (if loaded src = [] then [get_data h0 (used h0)] else loaded src @ [0])"
proof -
  let ?u = "used h0"
  let ?h5 = "init_heads h0"
  let ?src = "takeWhile (\<lambda>b. b \<noteq> 255) src"
  have t1: "tape ?h5 [?u]" and t2: "tape ?h5 [Suc ?u]" by (rule tape_init_heads)+
  have f: "255 \<notin> set ?src" by (auto dest: set_takeWhileD)
  have mm: "used ?h5 + length (filter is_command ?src) \<le> limit ?h5"
    using m by (simp add: loaded_def init_heads_simps)
  from parseInstructions_loop_tape[OF t1 f mm] obtain h' where r:
    "parseInstructions_loop ?src ?h5 (last [?u]) = Inr h'"
    "used h' = used ?h5 + length (filter is_command ?src)" "limit h' = limit ?h5"
    "tape h' ([?u] @ [used ?h5 ..< used h'])"
    "map (get_data h') (last [?u] # [used ?h5 ..< used h'])
       = (if filter is_command ?src = [] then [get_data ?h5 (last [?u])]
          else filter is_command ?src @ [0])"
    "\<forall>a<used ?h5. a \<notin> set [?u] \<longrightarrow> blocks h' a = blocks ?h5 a"
    by blast
  have p: "parseInstructions src ?h5 ?u = Inr h'"
    using r(1) parseInstructions_loop_takeWhile[of src ?h5 ?u]
    by (simp add: parseInstructions_def)
  have b: "blocks h' (Suc ?u) = blocks ?h5 (Suc ?u)" using r(6) by (simp add: init_heads_simps)
  have t2': "tape h' [Suc ?u]"
  proof (rule tape_frame[OF t2])
    show "\<forall>a\<in>set [Suc ?u]. blocks h' a = blocks ?h5 a" using b by simp
    show "used ?h5 \<le> used h'" using r(2) by simp
  qed
  have d: "get_data h' (Suc ?u) = 0" using b by (simp add: get_data_def init_heads_simps[unfolded get_data_def])
  let ?s = "\<lparr>mem = h', stdin = input, stdout = [], InstructionPointer = ?u,
      DataPointer = Suc ?u\<rparr>"
  have "?u + 2 \<le> limit h0" using m by simp
  then have l: "loadProgram src h0 input = Inr ?s"
    using cb p by (simp add: loadProgram_unfold)
  have u': "used h' = ?u + 2 + length (loaded src)" "limit h' = limit h0"
    using r(2,3) by (simp_all add: init_heads_simps loaded_def)
  have t': "tape h' (?u # [?u + 2 ..< used h'])"
    using r(4) by (simp add: init_heads_simps)
  have v': "map (get_data h') (?u # [?u + 2 ..< used h'])
      = (if loaded src = [] then [get_data h0 ?u] else loaded src @ [0])"
    using r(5) by (simp add: init_heads_simps loaded_def)
  show ?thesis
    using l u' t' t2' d v'
    by (intro exI[of _ ?s]) simp
qed

section \<open>The run on the cell values is the run on the heap\<close>

lemma map_get_data_set_data:
  "distinct D \<Longrightarrow> i < length D \<Longrightarrow>
   map (get_data (set_data h (D ! i) v)) D = (map (get_data h) D)[i := v]"
  by (auto simp: list_eq_iff_nth_eq nth_list_update set_data_vals nth_eq_iff_index_eq)

lemma map_get_data_set_data_other:
  "p \<notin> set I \<Longrightarrow> map (get_data (set_data h p v)) I = map (get_data h) I"
proof (rule map_cong[OF refl])
  fix a assume "p \<notin> set I" "a \<in> set I"
  then have "a \<noteq> p" by blast
  then show "get_data (set_data h p v) a = get_data h a" by (simp add: set_data_vals)
qed

lemma ne_in: "u \<notin> A \<Longrightarrow> a \<in> A \<Longrightarrow> a \<noteq> u"
  by blast

lemma tape_distinct: "tape h cs \<Longrightarrow> distinct cs"
  by (simp add: tape_def)

lemma tape_notin_used: "tape h cs \<Longrightarrow> used h \<notin> set cs"
  by (auto simp: tape_def)

lemma sim_set_data:
  assumes "sim I D s c"
  shows "sim I D (s\<lparr>mem := set_data (mem s) (DataPointer s) v\<rparr>)
           (c\<lparr>cells := (cells c)[pos c := v]\<rparr>)"
proof -
  from assms have d: "distinct D" and p: "pos c < length D" "DataPointer s = D ! pos c"
    and dj: "set I \<inter> set D = {}"
    by (auto simp: sim_def dest: tape_distinct)
  have "D ! pos c \<in> set D" using p by simp
  then have n: "D ! pos c \<notin> set I" using dj by blast
  show ?thesis
    using assms n map_get_data_set_data[OF d p(1), of "mem s" v]
    by (simp add: sim_def tape_set_data map_get_data_set_data_other)
qed

lemma sim_cur: "sim I D s c \<Longrightarrow> get_data (mem s) (DataPointer s) = cells c ! pos c"
  by (auto simp: sim_def dest: arg_cong[where f="\<lambda>xs. xs ! pos c"])

lemma sim_instr: "sim I D s c \<Longrightarrow> get_data (mem s) (InstructionPointer s) = prog c ! pc c"
  by (auto simp: sim_def dest: arg_cong[where f="\<lambda>xs. xs ! pc c"])

lemma sim_lengths: "sim I D s c \<Longrightarrow> length (prog c) = length I \<and> length (cells c) = length D"
  by (auto simp: sim_def dest: arg_cong[where f=length])

text \<open>Growing the data tape leaves the instruction tape alone.\<close>

lemma sim_alloc_next:
  assumes s: "sim I D s c" and e: "Suc (pos c) = length D"
  shows "sim I (D @ [used (mem s)])
           (s\<lparr>mem := alloc_next (mem s) (DataPointer s), DataPointer := used (mem s)\<rparr>)
           (c\<lparr>cells := cells c @ [0], pos := Suc (pos c)\<rparr>)"
proof -
  let ?h = "mem s" and ?u = "used (mem s)"
  from s have tI: "tape ?h I" and tD: "tape ?h D" and dj: "set I \<inter> set D = {}"
    and dp: "DataPointer s = D ! pos c" by (simp_all add: sim_def)
  have ne: "D \<noteq> []" using e by auto
  have "pos c = length D - 1" using e by simp
  then have l: "DataPointer s = last D" using dp ne by (simp add: last_conv_nth)
  let ?h' = "alloc_next ?h (last D)"
  have uI: "?u \<notin> set I" and uD: "?u \<notin> set D"
    using tI tD by (simp_all add: tape_notin_used)
  have lI: "last D \<notin> set I" using dj ne last_in_set by blast
  have tD': "tape ?h' (D @ [?u])" by (rule tape_alloc_next[OF tD])
  have tI': "tape ?h' I"
  proof (rule tape_frame[OF tI])
    show "\<forall>a\<in>set I. blocks ?h' a = blocks ?h a"
    proof
      fix a assume "a \<in> set I"
      then have "a \<noteq> ?u" "a \<noteq> last D" using uI lI by blast+
      then show "blocks ?h' a = blocks ?h a" by (simp add: alloc_next_simps)
    qed
    show "used ?h \<le> used ?h'" by (simp add: alloc_next_simps)
  qed
  have vI: "map (get_data ?h') I = map (get_data ?h) I"
    by (rule map_cong[OF refl]) (use uI in \<open>simp add: alloc_next_simps(4) ne_in\<close>)
  have vD: "map (get_data ?h') D = map (get_data ?h) D"
    by (rule map_cong[OF refl]) (use uD in \<open>simp add: alloc_next_simps(4) ne_in\<close>)
  show ?thesis
    using s e l tD' tI' vI vD uI
    by (simp add: sim_def alloc_next_simps nth_append)
qed

lemma sim_alloc_prev:
  assumes s: "sim I D s c" and e: "pos c = 0"
  shows "sim I (used (mem s) # D)
           (s\<lparr>mem := alloc_prev (mem s) (DataPointer s), DataPointer := used (mem s)\<rparr>)
           (c\<lparr>cells := 0 # cells c, origin := Suc (origin c)\<rparr>)"
proof -
  let ?h = "mem s" and ?u = "used (mem s)"
  from s have tI: "tape ?h I" and tD: "tape ?h D" and dj: "set I \<inter> set D = {}"
    and dp: "DataPointer s = D ! pos c" and ne: "D \<noteq> []" by (auto simp: sim_def)
  have l: "DataPointer s = hd D" using dp e ne by (simp add: hd_conv_nth)
  let ?h' = "alloc_prev ?h (hd D)"
  have uI: "?u \<notin> set I" and uD: "?u \<notin> set D"
    using tI tD by (simp_all add: tape_notin_used)
  have lI: "hd D \<notin> set I" using dj ne hd_in_set by blast
  have tD': "tape ?h' (?u # D)" by (rule tape_alloc_prev[OF tD])
  have tI': "tape ?h' I"
  proof (rule tape_frame[OF tI])
    show "\<forall>a\<in>set I. blocks ?h' a = blocks ?h a"
    proof
      fix a assume "a \<in> set I"
      then have "a \<noteq> ?u" "a \<noteq> hd D" using uI lI by blast+
      then show "blocks ?h' a = blocks ?h a" by (simp add: alloc_prev_simps)
    qed
    show "used ?h \<le> used ?h'" by (simp add: alloc_prev_simps)
  qed
  have vI: "map (get_data ?h') I = map (get_data ?h) I"
    by (rule map_cong[OF refl]) (use uI in \<open>simp add: alloc_prev_simps(4) ne_in\<close>)
  have vD: "map (get_data ?h') D = map (get_data ?h) D"
    by (rule map_cong[OF refl]) (use uD in \<open>simp add: alloc_prev_simps(4) ne_in\<close>)
  show ?thesis
    using s e l tD' tI' vI vD uI
    by (simp add: sim_def alloc_prev_simps)
qed

lemma scanForward_sim:
  "tape h I \<Longrightarrow> i < length I \<Longrightarrow>
   scan_fwd (drop (Suc i) (map (get_data h) I)) c = Some k \<Longrightarrow>
   scanForward h (I ! i) c = Some (Inr (h, I ! (i + k))) \<and> i + k < length I"
proof (induction k arbitrary: i c)
  case 0
  have "c = 0"
  proof (rule ccontr)
    assume "c \<noteq> 0"
    then show False using 0(3) by (cases "drop (Suc i) (map (get_data h) I)") auto
  qed
  then show ?case using 0 by (simp add: scanForward.simps)
next
  case (Suc k)
  have c: "c \<noteq> 0"
  proof
    assume "c = 0"
    then show False using Suc(4) by (cases "drop (Suc i) (map (get_data h) I)") auto
  qed
  then obtain x xs where d: "drop (Suc i) (map (get_data h) I) = x # xs"
    using Suc(4) by (cases "drop (Suc i) (map (get_data h) I)") auto
  then have i': "Suc i < length I" by (metis drop_eq_Nil length_map list.distinct(1) not_le)
  have x: "x = get_data h (I ! Suc i)" and xs: "xs = drop (Suc (Suc i)) (map (get_data h) I)"
    using d i' by (simp_all add: Cons_nth_drop_Suc[symmetric])
  let ?x = "get_data h (I ! Suc i)"
  let ?c' = "if sint ?x = LOOP_START then c + 1 else if sint ?x = LOOP_END then c - 1 else c"
  have "scan_fwd xs ?c' = Some k" using Suc(4) d c x by auto
  then have r: "scanForward h (I ! Suc i) ?c' = Some (Inr (h, I ! (Suc i + k)))"
      "Suc i + k < length I"
    using Suc.IH[OF Suc(2) i', of ?c'] xs by simp_all
  have mv: "moveForward h (I ! i) = Inr (h, I ! Suc i)"
    by (rule moveForward_inside[OF Suc(2) i'])
  have "scanForward h (I ! i) c = scanForward h (I ! Suc i) ?c'"
    using c mv by (subst scanForward.simps) simp
  then show ?case using r by simp
qed

lemma scanBackward_sim:
  "tape h I \<Longrightarrow> i < length I \<Longrightarrow>
   scan_bwd (rev (take i (map (get_data h) I))) c = Some k \<Longrightarrow>
   scanBackward h (I ! i) c = Some (Inr (h, I ! (i - k))) \<and> k \<le> i"
proof (induction k arbitrary: i c)
  case 0
  have "c = 0"
  proof (rule ccontr)
    assume "c \<noteq> 0"
    then show False using 0(3) by (cases "rev (take i (map (get_data h) I))") auto
  qed
  then show ?case using 0 by (simp add: scanBackward.simps)
next
  case (Suc k)
  have c: "c \<noteq> 0"
  proof
    assume "c = 0"
    then show False using Suc(4) by (cases "rev (take i (map (get_data h) I))") auto
  qed
  then obtain x xs where d: "rev (take i (map (get_data h) I)) = x # xs"
    using Suc(4) by (cases "rev (take i (map (get_data h) I))") auto
  then have i': "0 < i" by (cases i) auto
  then obtain j where j: "i = Suc j" by (cases i) auto
  have "take i (map (get_data h) I) = take j (map (get_data h) I) @ [get_data h (I ! j)]"
    using j Suc(3) by (simp add: take_Suc_conv_app_nth)
  then have x: "x = get_data h (I ! j)" and xs: "xs = rev (take j (map (get_data h) I))"
    using d by simp_all
  let ?x = "get_data h (I ! j)"
  let ?c' = "if sint ?x = LOOP_START then c - 1 else if sint ?x = LOOP_END then c + 1 else c"
  have "scan_bwd xs ?c' = Some k" using Suc(4) d c x by auto
  moreover have "j < length I" using j Suc(3) by simp
  ultimately have r: "scanBackward h (I ! j) ?c' = Some (Inr (h, I ! (j - k)))" "k \<le> j"
    using Suc.IH[OF Suc(2), of j ?c'] xs by simp_all
  have mv: "moveBackward h (I ! i) = Inr (h, I ! j)"
    using moveBackward_inside[OF Suc(2,3) i'] j by simp
  have "scanBackward h (I ! i) c = scanBackward h (I ! j) ?c'"
    using c mv by (subst scanBackward.simps) simp
  then show ?case using r j by simp
qed

lemma sim_command:
  assumes s: "sim I D s c" and a: "acommand c = Some c1"
    and m: "length (cells c) < length (cells c1) \<longrightarrow> used (mem s) < limit (mem s)"
  shows "\<exists>D' s1. execCommand s = Some (Inr s1) \<and> sim I D' s1 c1 \<and>
           D' ! origin c1 = D ! origin c \<and>
           used (mem s1) = used (mem s) + (length (cells c1) - length (cells c)) \<and>
           limit (mem s1) = limit (mem s)"
proof -
  let ?h = "mem s" and ?ip = "InstructionPointer s" and ?dp = "DataPointer s"
  let ?cmd = "sint (prog c ! pc c)" and ?v = "cells c ! pos c"
  have ci: "get_data ?h ?ip = prog c ! pc c" by (rule sim_instr[OF s])
  have cv: "get_data ?h ?dp = ?v" by (rule sim_cur[OF s])
  from s have tI: "tape ?h I" and tD: "tape ?h D"
    and pc: "pc c < length I" "?ip = I ! pc c"
    and ps: "pos c < length D" "?dp = D ! pos c" and og: "origin c < length D"
    and vI: "map (get_data ?h) I = prog c"
    by (simp_all add: sim_def)
  have len: "length (cells c) = length D" using sim_lengths[OF s] by simp
  have same: "\<exists>D' s1. Some (Inr s1') = Some (Inr s1) \<and> sim I D' s1 c1 \<and>
           D' ! origin c1 = D ! origin c \<and>
           used (mem s1) = used (mem s) + (length (cells c1) - length (cells c)) \<and>
           limit (mem s1) = limit (mem s)"
    if "sim I D s1' c1" "origin c1 = origin c" "mem s1' = set_data ?h p v \<or> mem s1' = ?h"
       "length (cells c1) = length (cells c)"
    for s1' p v
    using that by (intro exI[of _ D] exI[of _ s1']) (auto simp: set_data_ptrs)
  consider
      (fwd) "?cmd = MOVE_FORWARD"
    | (bwd) "?cmd = MOVE_BACKWARD"
    | (inc) "?cmd = INCREMENT_DATA"
    | (dec) "?cmd = DECREMENT_DATA"
    | (out) "?cmd = OUTPUT_DATA"
    | (inp) "?cmd = INPUT_DATA"
    | (lst) "?cmd = LOOP_START"
    | (lend) "?cmd = LOOP_END"
    | (other) "?cmd \<noteq> MOVE_FORWARD" "?cmd \<noteq> MOVE_BACKWARD" "?cmd \<noteq> INCREMENT_DATA"
        "?cmd \<noteq> DECREMENT_DATA" "?cmd \<noteq> OUTPUT_DATA" "?cmd \<noteq> INPUT_DATA"
        "?cmd \<noteq> LOOP_START" "?cmd \<noteq> LOOP_END"
    by blast
  then show ?thesis
  proof cases
    case fwd
    have ex: "execCommand s = (case moveForward ?h ?dp of Inl e \<Rightarrow> Some (Inl e)
        | Inr (h', dp') \<Rightarrow> Some (Inr (s\<lparr>mem := h', DataPointer := dp'\<rparr>)))"
      using fwd ci by (simp add: execCommand_def Let_def)
    show ?thesis
    proof (cases "Suc (pos c) < length D")
      case True
      have c1: "c1 = c\<lparr>pos := Suc (pos c)\<rparr>"
        using a fwd True len by (simp add: acommand_def Let_def)
      have mv: "moveForward ?h ?dp = Inr (?h, D ! Suc (pos c))"
        using moveForward_inside[OF tD True] ps by simp
      have "sim I D (s\<lparr>mem := ?h, DataPointer := D ! Suc (pos c)\<rparr>) c1"
        using s True c1 by (simp add: sim_def)
      then show ?thesis using ex mv c1
        by (intro exI[of _ D] exI[of _ "s\<lparr>mem := ?h, DataPointer := D ! Suc (pos c)\<rparr>"]) simp
    next
      case False
      then have e: "Suc (pos c) = length D" using ps by simp
      have c1: "c1 = c\<lparr>cells := cells c @ [0], pos := Suc (pos c)\<rparr>"
        using a fwd False len by (simp add: acommand_def Let_def)
      have mem: "used ?h < limit ?h" using m c1 by simp
      have "pos c = length D - 1" "D \<noteq> []" using e by auto
      then have l: "?dp = last D" using ps by (simp add: last_conv_nth)
      have mv: "moveForward ?h ?dp = Inr (alloc_next ?h ?dp, used ?h)"
        using moveForward_last[OF tD] mem l by simp
      have "sim I (D @ [used ?h]) (s\<lparr>mem := alloc_next ?h ?dp, DataPointer := used ?h\<rparr>) c1"
        using sim_alloc_next[OF s e] c1 by simp
      then show ?thesis using ex mv c1 og
        by (intro exI[of _ "D @ [used ?h]"]
            exI[of _ "s\<lparr>mem := alloc_next ?h ?dp, DataPointer := used ?h\<rparr>"])
          (simp add: nth_append alloc_next_simps)
    qed
  next
    case bwd
    have ex: "execCommand s = (case moveBackward ?h ?dp of Inl e \<Rightarrow> Some (Inl e)
        | Inr (h', dp') \<Rightarrow> Some (Inr (s\<lparr>mem := h', DataPointer := dp'\<rparr>)))"
      using bwd ci by (simp add: execCommand_def Let_def command_defs)
    show ?thesis
    proof (cases "0 < pos c")
      case True
      have c1: "c1 = c\<lparr>pos := pos c - 1\<rparr>"
        using a bwd True by (simp add: acommand_def Let_def command_defs)
      have mv: "moveBackward ?h ?dp = Inr (?h, D ! (pos c - 1))"
        using moveBackward_inside[OF tD ps(1) True] ps by simp
      have "pos c - 1 < length D" using ps by simp
      then have "sim I D (s\<lparr>mem := ?h, DataPointer := D ! (pos c - 1)\<rparr>) c1"
        using s True c1 by (simp add: sim_def)
      then show ?thesis using ex mv c1
        by (intro exI[of _ D] exI[of _ "s\<lparr>mem := ?h, DataPointer := D ! (pos c - 1)\<rparr>"]) simp
    next
      case False
      then have e: "pos c = 0" by simp
      have c1: "c1 = c\<lparr>cells := 0 # cells c, origin := Suc (origin c)\<rparr>"
        using a bwd False by (simp add: acommand_def Let_def command_defs)
      have mem: "used ?h < limit ?h" using m c1 by simp
      have ne: "D \<noteq> []" using ps by auto
      have l: "?dp = hd D" using ps e ne by (simp add: hd_conv_nth)
      have mv: "moveBackward ?h ?dp = Inr (alloc_prev ?h ?dp, used ?h)"
        using moveBackward_first[OF tD] mem l by simp
      have "sim I (used ?h # D) (s\<lparr>mem := alloc_prev ?h ?dp, DataPointer := used ?h\<rparr>) c1"
        using sim_alloc_prev[OF s e] c1 by simp
      then show ?thesis using ex mv c1 og
        by (intro exI[of _ "used ?h # D"]
            exI[of _ "s\<lparr>mem := alloc_prev ?h ?dp, DataPointer := used ?h\<rparr>"])
          (simp add: alloc_prev_simps)
    qed
  next
    case inc
    have ex: "execCommand s = Some (Inr (s\<lparr>mem := set_data ?h ?dp (?v + 1)\<rparr>))"
      using inc ci cv by (simp add: execCommand_def Let_def command_defs incrementData_def)
    have c1: "c1 = c\<lparr>cells := (cells c)[pos c := ?v + 1]\<rparr>"
      using a inc by (simp add: acommand_def Let_def command_defs)
    show ?thesis unfolding ex
      using sim_set_data[OF s, of "?v + 1"] c1 by (intro same[of _ ?dp "?v + 1"]) simp_all
  next
    case dec
    have ex: "execCommand s = Some (Inr (s\<lparr>mem := set_data ?h ?dp (?v - 1)\<rparr>))"
      using dec ci cv by (simp add: execCommand_def Let_def command_defs decrementData_def)
    have c1: "c1 = c\<lparr>cells := (cells c)[pos c := ?v - 1]\<rparr>"
      using a dec by (simp add: acommand_def Let_def command_defs)
    show ?thesis unfolding ex
      using sim_set_data[OF s, of "?v - 1"] c1 by (intro same[of _ ?dp "?v - 1"]) simp_all
  next
    case out
    have ex: "execCommand s = Some (Inr (s\<lparr>stdout := stdout s @ [?v]\<rparr>))"
      using out ci cv by (simp add: execCommand_def Let_def command_defs outputData_def)
    have c1: "c1 = c\<lparr>aoutput := aoutput c @ [?v]\<rparr>"
      using a out by (simp add: acommand_def Let_def command_defs)
    have "sim I D (s\<lparr>stdout := stdout s @ [?v]\<rparr>) c1"
      using s c1 by (simp add: sim_def)
    then show ?thesis unfolding ex
      using c1 by (intro same[of _ ?dp 0]) simp_all
  next
    case inp
    have ex: "execCommand s = Some (Inr (inputData s ?dp))"
      using inp ci by (simp add: execCommand_def Let_def command_defs)
    have si: "stdin s = ainput c" using s by (simp add: sim_def)
    show ?thesis
    proof (cases "ainput c")
      case Nil
      have c1: "c1 = c\<lparr>cells := (cells c)[pos c := 255]\<rparr>"
        using a inp Nil by (simp add: acommand_def Let_def command_defs)
      have w: "(- 1 :: 8 word) = 255" by simp
      have i: "inputData s ?dp = s\<lparr>mem := set_data ?h ?dp 255\<rparr>"
        using si Nil by (cases s) (simp add: inputData_def EOF_def w)
      show ?thesis unfolding ex i
        using sim_set_data[OF s, of 255] c1 by (intro same[of _ ?dp 255]) simp_all
    next
      case (Cons b bs)
      have c1: "c1 = c\<lparr>cells := (cells c)[pos c := b], ainput := bs\<rparr>"
        using a inp Cons by (simp add: acommand_def Let_def command_defs)
      have i: "inputData s ?dp = s\<lparr>mem := set_data ?h ?dp b, stdin := bs\<rparr>"
        using si Cons by (simp add: inputData_def)
      have "sim I D (s\<lparr>mem := set_data ?h ?dp b, stdin := bs\<rparr>) c1"
        using sim_set_data[OF s, of b] c1 by (auto simp: sim_def)
      then show ?thesis unfolding ex i
        using c1 by (intro same[of _ ?dp b]) simp_all
    qed
  next
    case lst
    have ex: "execCommand s = (if ?v = 0 then
        (case scanForward ?h ?ip 1 of None \<Rightarrow> None | Some (Inl e) \<Rightarrow> Some (Inl e)
         | Some (Inr (h', ip')) \<Rightarrow> Some (Inr (s\<lparr>mem := h', InstructionPointer := ip'\<rparr>)))
        else Some (Inr s))"
      using lst ci cv by (simp add: execCommand_def Let_def command_defs)
    show ?thesis
    proof (cases "?v = 0")
      case False
      have c1: "c1 = c" using a lst False by (simp add: acommand_def Let_def command_defs)
      show ?thesis using ex False c1 s by (intro exI[of _ D] exI[of _ s]) simp
    next
      case True
      from a lst True obtain k where k: "scan_fwd (drop (Suc (pc c)) (prog c)) 1 = Some k"
        and c1: "c1 = c\<lparr>pc := pc c + k\<rparr>"
        by (auto simp: acommand_def Let_def command_defs split: option.splits)
      have sc: "scanForward ?h ?ip 1 = Some (Inr (?h, I ! (pc c + k)))" "pc c + k < length I"
        using scanForward_sim[OF tI pc(1), of 1 k] k vI pc(2) by simp_all
      have "sim I D (s\<lparr>mem := ?h, InstructionPointer := I ! (pc c + k)\<rparr>) c1"
        using s c1 sc(2) by (simp add: sim_def)
      then show ?thesis using ex True sc c1
        by (intro exI[of _ D] exI[of _ "s\<lparr>mem := ?h, InstructionPointer := I ! (pc c + k)\<rparr>"])
          simp
    qed
  next
    case lend
    have ex: "execCommand s = (if ?v \<noteq> 0 then
        (case scanBackward ?h ?ip 1 of None \<Rightarrow> None | Some (Inl e) \<Rightarrow> Some (Inl e)
         | Some (Inr (h', ip')) \<Rightarrow> Some (Inr (s\<lparr>mem := h', InstructionPointer := ip'\<rparr>)))
        else Some (Inr s))"
      using lend ci cv by (simp add: execCommand_def Let_def command_defs)
    show ?thesis
    proof (cases "?v = 0")
      case True
      have c1: "c1 = c" using a lend True by (simp add: acommand_def Let_def command_defs)
      show ?thesis using ex True c1 s by (intro exI[of _ D] exI[of _ s]) simp
    next
      case False
      from a lend False obtain k where k: "scan_bwd (rev (take (pc c) (prog c))) 1 = Some k"
        and c1: "c1 = c\<lparr>pc := pc c - k\<rparr>"
        by (auto simp: acommand_def Let_def command_defs split: option.splits)
      have sc: "scanBackward ?h ?ip 1 = Some (Inr (?h, I ! (pc c - k)))" "k \<le> pc c"
        using scanBackward_sim[OF tI pc(1), of 1 k] k vI pc(2) by simp_all
      have "pc c - k < length I" using pc by simp
      then have "sim I D (s\<lparr>mem := ?h, InstructionPointer := I ! (pc c - k)\<rparr>) c1"
        using s c1 sc(2) by (simp add: sim_def)
      then show ?thesis using ex False sc c1
        by (intro exI[of _ D] exI[of _ "s\<lparr>mem := ?h, InstructionPointer := I ! (pc c - k)\<rparr>"])
          simp
    qed
  next
    case other
    have ex: "execCommand s = Some (Inr s)"
      using other ci by (simp add: execCommand_def Let_def)
    have c1: "c1 = c" using a other by (simp add: acommand_def Let_def)
    show ?thesis using ex c1 s by (intro exI[of _ D] exI[of _ s]) simp
  qed
qed

lemma acommand_cells_mono:
  "acommand c = Some c1 \<Longrightarrow> length (cells c) \<le> length (cells c1) \<and> prog c1 = prog c"
  by (auto simp: acommand_def Let_def split: if_splits option.splits list.splits)

lemma astep_cells_mono:
  "astep c = Some c' \<Longrightarrow> length (cells c) \<le> length (cells c') \<and> prog c' = prog c"
  by (auto simp: astep_def split: if_splits option.splits dest: acommand_cells_mono)

lemma atrace_cells_mono:
  "atrace n c = Some (t, c') \<Longrightarrow> length (cells c) \<le> length (cells c') \<and> prog c' = prog c"
proof (induction n arbitrary: c t)
  case 0
  then show ?case by simp
next
  case (Suc n)
  from Suc.prems obtain c1 t1 where c1: "astep c = Some c1" "atrace n c1 = Some (t1, c')"
    by (auto split: option.splits if_splits)
  show ?case using astep_cells_mono[OF c1(1)] Suc.IH[OF c1(2)] by simp
qed

lemma sim_step:
  assumes s: "sim I D s c" and a: "astep c = Some c'"
    and m: "length (cells c) < length (cells c') \<longrightarrow> used (mem s) < limit (mem s)"
  shows "\<exists>D' s'. execStep s = Some (Inr s') \<and> sim I D' s' c' \<and>
           D' ! origin c' = D ! origin c \<and>
           used (mem s') = used (mem s) + (length (cells c') - length (cells c)) \<and>
           limit (mem s') = limit (mem s)"
proof -
  from a obtain c1 where c1: "acommand c = Some c1" "Suc (pc c1) < length (prog c1)"
    "c' = c1\<lparr>pc := Suc (pc c1)\<rparr>"
    by (auto simp: astep_def split: option.splits if_splits)
  have m1: "length (cells c) < length (cells c1) \<longrightarrow> used (mem s) < limit (mem s)"
    using m c1(3) by simp
  from sim_command[OF s c1(1) m1] obtain D' s1 where r:
    "execCommand s = Some (Inr s1)" "sim I D' s1 c1" "D' ! origin c1 = D ! origin c"
    "used (mem s1) = used (mem s) + (length (cells c1) - length (cells c))"
    "limit (mem s1) = limit (mem s)"
    by blast
  from r(2) have tI: "tape (mem s1) I" and ip: "InstructionPointer s1 = I ! pc c1"
    by (simp_all add: sim_def)
  have l: "Suc (pc c1) < length I" using c1(2) sim_lengths[OF r(2)] by simp
  have mv: "moveForward (mem s1) (InstructionPointer s1) = Inr (mem s1, I ! Suc (pc c1))"
    using moveForward_inside[OF tI l] ip by simp
  let ?s' = "s1\<lparr>mem := mem s1, InstructionPointer := I ! Suc (pc c1)\<rparr>"
  have e: "execStep s = Some (Inr ?s')" using r(1) mv by (simp add: execStep_def)
  have "sim I D' ?s' c'" using r(2) c1(3) l by (simp add: sim_def)
  then show ?thesis using e r(3,4,5) c1(3)
    by (intro exI[of _ D'] exI[of _ ?s']) simp
qed

lemma sim_trace:
  "sim I D s c \<Longrightarrow> atrace n c = Some (t, c') \<Longrightarrow>
   used (mem s) + (length (cells c') - length (cells c)) \<le> limit (mem s) \<Longrightarrow>
   \<exists>D' s'. execTrace n s = Some (t, s') \<and> sim I D' s' c' \<and>
     D' ! origin c' = D ! origin c \<and>
     used (mem s') = used (mem s) + (length (cells c') - length (cells c)) \<and>
     limit (mem s') = limit (mem s)"
proof (induction n arbitrary: s c D t)
  case 0
  then show ?case by (intro exI[of _ D] exI[of _ s]) simp
next
  case (Suc n)
  have ci: "get_data (mem s) (InstructionPointer s) = prog c ! pc c"
    by (rule sim_instr[OF Suc.prems(1)])
  from Suc.prems(2) obtain c1 t1 where c1: "astep c = Some c1" "atrace n c1 = Some (t1, c')"
    and t: "t = prog c ! pc c # t1" and nz: "prog c ! pc c \<noteq> 0"
    by (auto split: option.splits if_splits)
  have l1: "length (cells c) \<le> length (cells c1)" using astep_cells_mono[OF c1(1)] by simp
  have l2: "length (cells c1) \<le> length (cells c')" using atrace_cells_mono[OF c1(2)] by simp
  have m1: "length (cells c) < length (cells c1) \<longrightarrow> used (mem s) < limit (mem s)"
    using Suc.prems(3) l1 l2 by auto
  from sim_step[OF Suc.prems(1) c1(1) m1] obtain D1 s1 where r:
    "execStep s = Some (Inr s1)" "sim I D1 s1 c1" "D1 ! origin c1 = D ! origin c"
    "used (mem s1) = used (mem s) + (length (cells c1) - length (cells c))"
    "limit (mem s1) = limit (mem s)"
    by blast
  have m2: "used (mem s1) + (length (cells c') - length (cells c1)) \<le> limit (mem s1)"
    using Suc.prems(3) r(4,5) l1 l2 by simp
  from Suc.IH[OF r(2) c1(2) m2] obtain D' s' where r':
    "execTrace n s1 = Some (t1, s')" "sim I D' s' c'" "D' ! origin c' = D1 ! origin c1"
    "used (mem s') = used (mem s1) + (length (cells c') - length (cells c1))"
    "limit (mem s') = limit (mem s1)"
    by blast
  have "execTrace (Suc n) s = Some (t, s')"
    using nz ci r(1) r'(1) t by simp
  then show ?case using r r' l1 l2
    by (intro exI[of _ D'] exI[of _ s']) simp
qed

text \<open>A trace that ends in a state on the sentinel is the whole run.\<close>

lemma execTrace_executeProgram:
  "execTrace n s = Some (t, s') \<Longrightarrow> get_data (mem s') (InstructionPointer s') = 0 \<Longrightarrow>
   executeProgram s = Some (Inr s')"
proof (induction n arbitrary: s t)
  case 0
  then show ?case by (subst executeProgram.simps) simp
next
  case (Suc n)
  from Suc.prems(1) obtain s1 t1 where s1: "execStep s = Some (Inr s1)"
    "execTrace n s1 = Some (t1, s')" and nz: "get_data (mem s) (InstructionPointer s) \<noteq> 0"
    by (auto split: option.splits if_splits sum.splits)
  have "executeProgram s = executeProgram s1"
    using nz s1(1) by (subst executeProgram.simps) simp
  then show ?case using Suc.IH[OF s1(2) Suc.prems(2)] by simp
qed

lemma main_sim:
  assumes cb: "checkBrackets src" and ne: "loaded src \<noteq> []"
    and a: "atrace n (initial_conf (loaded src) input) = Some (t, c')"
    and h: "prog c' ! pc c' = 0"
    and m: "used h0 + 1 + length (loaded src) + length (cells c') \<le> limit h0"
  shows "\<exists>s0 s'. loadProgram src h0 input = Inr s0 \<and> execTrace n s0 = Some (t, s') \<and>
     executeProgram s0 = Some (Inr s') \<and> main src h0 input = Some (Inr s') \<and>
     stdout s' = aoutput c' \<and> stdin s' = ainput c' \<and>
     get_data (mem s') (DataPointer s0) = cells c' ! origin c' \<and>
     get_data (mem s') (DataPointer s') = cells c' ! pos c' \<and>
     get_data (mem s') (InstructionPointer s') = 0"
proof -
  let ?c0 = "initial_conf (loaded src) input"
  have l: "1 \<le> length (cells c')" using atrace_cells_mono[OF a] by (simp add: initial_conf_def)
  then have m0: "used h0 + 2 + length (loaded src) \<le> limit h0" using m by simp
  from loadProgram_tape[OF cb m0, of input] obtain s0 where s0:
    "loadProgram src h0 input = Inr s0"
    "InstructionPointer s0 = used h0" "DataPointer s0 = Suc (used h0)"
    "stdin s0 = input" "stdout s0 = []"
    "used (mem s0) = used h0 + 2 + length (loaded src)" "limit (mem s0) = limit h0"
    "tape (mem s0) (used h0 # [used h0 + 2 ..< used (mem s0)])"
    "tape (mem s0) [Suc (used h0)]"
    "get_data (mem s0) (Suc (used h0)) = 0"
    "map (get_data (mem s0)) (used h0 # [used h0 + 2 ..< used (mem s0)])
      = (if loaded src = [] then [get_data h0 (used h0)] else loaded src @ [0])"
    by blast
  let ?I = "used h0 # [used h0 + 2 ..< used (mem s0)]" and ?D = "[Suc (used h0)]"
  have sim0: "sim ?I ?D s0 ?c0"
    using s0 ne by (simp add: sim_def initial_conf_def)
  have m1: "used (mem s0) + (length (cells c') - length (cells ?c0)) \<le> limit (mem s0)"
    using m l s0(6,7) by (simp add: initial_conf_def)
  from sim_trace[OF sim0 a m1] obtain D' s' where r:
    "execTrace n s0 = Some (t, s')" "sim ?I D' s' c'"
    "D' ! origin c' = ?D ! origin ?c0"
    by blast
  have o: "D' ! origin c' = DataPointer s0" using r(3) s0(3) by (simp add: initial_conf_def)
  have og: "get_data (mem s') (D' ! origin c') = cells c' ! origin c'"
    using r(2) by (auto simp: sim_def dest: arg_cong[where f="\<lambda>xs. xs ! origin c'"])
  have hl: "get_data (mem s') (InstructionPointer s') = 0" using sim_instr[OF r(2)] h by simp
  have ex: "executeProgram s0 = Some (Inr s')" by (rule execTrace_executeProgram[OF r(1) hl])
  have mn: "main src h0 input = Some (Inr s')" using s0(1) ex by (simp add: main_def)
  show ?thesis
    using s0(1) r(1) ex mn og o hl sim_cur[OF r(2)] r(2)
    by (intro exI[of _ s0] exI[of _ s']) (simp add: sim_def)
qed

section \<open>Runs of the programs of the claims\<close>

lemma loaded_commands:
  assumes "255 \<notin> set src" "\<forall>b\<in>set src. is_command b"
  shows "loaded src = src"
proof -
  have t: "takeWhile (\<lambda>b. b \<noteq> 255) src = src" using assms(1) by auto
  have f: "filter is_command src = src" using assms(2) by simp
  show ?thesis unfolding loaded_def t f ..
qed

lemma add_program_checked: "checkBrackets add_program"
  by (simp add: add_program_def bytes_of_def checkBrackets_def checkBrackets_loop_Cons
      checkBrackets_loop_Nil command_defs)

lemma add_program_loaded: "loaded add_program = add_program"
  by (rule loaded_commands) (simp_all add: add_program_def bytes_of_def is_command_def command_defs)

lemma add_program_trace:
  "atrace 36 (initial_conf add_program input) =
     Some (bytes_of ''++>+++++[<+>-]<+>-]<+>-]<+>-]<+>-]<.'',
           \<lparr>prog = add_program @ [0], pc = 16, cells = [7, 0], pos = 0, origin = 0,
            ainput = input, aoutput = [7]\<rparr>)"
  by code_simp

lemma add_program_run:
  assumes "used h0 + 19 \<le> limit h0"
  shows "\<exists>s0 s. loadProgram add_program h0 input = Inr s0 \<and>
           main add_program h0 input = Some (Inr s) \<and>
           get_data (mem s) (DataPointer s0) = 7 \<and> stdout s = [7]"
proof -
  let ?c = "\<lparr>prog = add_program @ [0], pc = 16, cells = [7, 0], pos = 0, origin = 0,
            ainput = input, aoutput = [7 :: 8 word]\<rparr>"
  have ne: "loaded add_program \<noteq> []"
    unfolding add_program_loaded by (simp add: add_program_def bytes_of_def)
  have a: "atrace 36 (initial_conf (loaded add_program) input)
      = Some (bytes_of ''++>+++++[<+>-]<+>-]<+>-]<+>-]<+>-]<.'', ?c)"
    unfolding add_program_loaded by (rule add_program_trace)
  have h: "prog ?c ! pc ?c = 0" by (simp add: add_program_def bytes_of_def)
  have m: "used h0 + 1 + length (loaded add_program) + length (cells ?c) \<le> limit h0"
    unfolding add_program_loaded using assms by (simp add: add_program_def bytes_of_def)
  from main_sim[OF add_program_checked ne a h m] show ?thesis
    by (auto simp: )
qed

lemma clear_program_checked: "checkBrackets clear_program"
  by (simp add: clear_program_def bytes_of_def checkBrackets_def checkBrackets_loop_Cons
      checkBrackets_loop_Nil command_defs)

lemma clear_program_loaded: "loaded clear_program = clear_program"
  by (rule loaded_commands) (simp_all add: clear_program_def bytes_of_def is_command_def command_defs)

lemma clear_program_trace:
  "atrace 4 (initial_conf clear_program input) =
     Some (bytes_of ''+[-]'',
           \<lparr>prog = clear_program @ [0], pc = 4, cells = [0], pos = 0, origin = 0,
            ainput = input, aoutput = []\<rparr>)"
  by code_simp

lemma clear_program_run:
  assumes "used h0 + 6 \<le> limit h0"
  shows "\<exists>s0 s. loadProgram clear_program h0 input = Inr s0 \<and>
           execTrace 4 s0 = Some (bytes_of ''+[-]'', s) \<and>
           get_data (mem s) (InstructionPointer s) = 0 \<and>
           main clear_program h0 input = Some (Inr s) \<and>
           get_data (mem s) (DataPointer s0) = 0"
proof -
  let ?c = "\<lparr>prog = clear_program @ [0], pc = 4, cells = [0], pos = 0, origin = 0,
            ainput = input, aoutput = ([] :: 8 word list)\<rparr>"
  have ne: "loaded clear_program \<noteq> []"
    unfolding clear_program_loaded by (simp add: clear_program_def bytes_of_def)
  have a: "atrace 4 (initial_conf (loaded clear_program) input)
      = Some (bytes_of ''+[-]'', ?c)"
    unfolding clear_program_loaded by (rule clear_program_trace)
  have h: "prog ?c ! pc ?c = 0" by (simp add: clear_program_def bytes_of_def)
  have m: "used h0 + 1 + length (loaded clear_program) + length (cells ?c) \<le> limit h0"
    unfolding clear_program_loaded using assms by (simp add: clear_program_def bytes_of_def)
  from main_sim[OF clear_program_checked ne a h m] show ?thesis
    by auto
qed

lemma checkBrackets_loop_increments:
  "0 \<le> sint c \<Longrightarrow> checkBrackets_loop (replicate k 43 @ rest) c = checkBrackets_loop rest c"
  by (induction k) (simp_all add: checkBrackets_loop_Cons command_defs)

lemma incr_program_checked: "checkBrackets (incr_program k)"
  using checkBrackets_loop_increments[of 0 k "[46]"]
  by (simp add: incr_program_def checkBrackets_def checkBrackets_loop_Cons
      checkBrackets_loop_Nil command_defs)

lemma incr_program_loaded: "loaded (incr_program k) = incr_program k"
  by (rule loaded_commands) (auto simp: incr_program_def is_command_def command_defs)

lemma astep_increment:
  assumes "prog c ! pc c = 43" "Suc (pc c) < length (prog c)"
  shows "astep c = Some (c\<lparr>cells := (cells c)[pos c := cells c ! pos c + 1], pc := Suc (pc c)\<rparr>)"
  using assms by (simp add: astep_def acommand_def Let_def command_defs)

lemma atrace_increments:
  "prog c = replicate k 43 @ rest \<Longrightarrow> rest \<noteq> [] \<Longrightarrow> pc c + i \<le> k \<Longrightarrow>
   pos c < length (cells c) \<Longrightarrow>
   atrace (i + n) c =
     (case atrace n (c\<lparr>cells := (cells c)[pos c := cells c ! pos c + of_nat i],
                       pc := pc c + i\<rparr>) of
        None \<Rightarrow> None
      | Some (t, c') \<Rightarrow> Some (replicate i 43 @ t, c'))"
proof (induction i arbitrary: c)
  case 0
  have "c\<lparr>cells := (cells c)[pos c := cells c ! pos c + of_nat 0], pc := pc c + 0\<rparr> = c"
    by simp
  then show ?case by (simp split: option.splits)
next
  case (Suc i)
  let ?c1 = "c\<lparr>cells := (cells c)[pos c := cells c ! pos c + 1], pc := Suc (pc c)\<rparr>"
  have p: "pc c < k" using Suc.prems by simp
  then have i43: "prog c ! pc c = 43" using Suc.prems(1) by (simp add: nth_append)
  have l: "Suc (pc c) < length (prog c)" using Suc.prems(1,2) p
    by (cases rest) simp_all
  have st: "astep c = Some ?c1" by (rule astep_increment[OF i43 l])
  have IH: "atrace (i + n) ?c1 =
     (case atrace n (?c1\<lparr>cells := (cells ?c1)[pos ?c1 := cells ?c1 ! pos ?c1 + of_nat i],
                       pc := pc ?c1 + i\<rparr>) of
        None \<Rightarrow> None
      | Some (t, c') \<Rightarrow> Some (replicate i 43 @ t, c'))"
    using Suc.prems by (intro Suc.IH) simp_all
  have e: "?c1\<lparr>cells := (cells ?c1)[pos ?c1 := cells ?c1 ! pos ?c1 + of_nat i],
                       pc := pc ?c1 + i\<rparr>
      = c\<lparr>cells := (cells c)[pos c := cells c ! pos c + of_nat (Suc i)], pc := pc c + Suc i\<rparr>"
    using Suc.prems(4) by (simp add: add.assoc)
  show ?case
    using i43 st IH unfolding e by (simp split: option.splits)
qed

lemma incr_program_trace:
  "atrace (k + 1) (initial_conf (incr_program k) input) =
     Some (incr_program k,
           \<lparr>prog = incr_program k @ [0], pc = Suc k, cells = [of_nat k], pos = 0, origin = 0,
            ainput = input, aoutput = [of_nat k]\<rparr>)"
proof -
  let ?c0 = "initial_conf (incr_program k) input"
  let ?ck = "?c0\<lparr>cells := (cells ?c0)[pos ?c0 := cells ?c0 ! pos ?c0 + of_nat k],
                       pc := pc ?c0 + k\<rparr>"
  have p: "prog ?c0 = replicate k 43 @ [46, 0]" by (simp add: initial_conf_def incr_program_def)
  have 1: "atrace (k + 1) ?c0 =
     (case atrace 1 ?ck of None \<Rightarrow> None | Some (t, c') \<Rightarrow> Some (replicate k 43 @ t, c'))"
  proof (rule atrace_increments[where rest = "[46, 0]" and k = k])
    show "prog ?c0 = replicate k 43 @ [46, 0]" by (rule p)
    show "[46, 0 :: 8 word] \<noteq> []" by simp
    show "pc ?c0 + k \<le> k" by (simp add: initial_conf_def)
    show "pos ?c0 < length (cells ?c0)" by (simp add: initial_conf_def)
  qed
  have ck: "?ck = \<lparr>prog = replicate k 43 @ [46, 0], pc = k, cells = [of_nat k], pos = 0,
      origin = 0, ainput = input, aoutput = []\<rparr>"
    by (simp add: initial_conf_def incr_program_def)
  have 2: "atrace 1 ?ck = Some ([46], \<lparr>prog = replicate k 43 @ [46, 0], pc = Suc k,
      cells = [of_nat k], pos = 0, origin = 0, ainput = input, aoutput = [of_nat k]\<rparr>)"
    unfolding ck by (simp add: astep_def acommand_def Let_def command_defs nth_append)
  show ?thesis unfolding 1 2 by (simp add: incr_program_def)
qed

lemma incr_program_run:
  assumes "used h0 + k + 3 \<le> limit h0"
  shows "\<exists>s. main (incr_program k) h0 input = Some (Inr s) \<and> stdout s = [of_nat k]"
proof -
  let ?c = "\<lparr>prog = incr_program k @ [0], pc = Suc k, cells = [of_nat k], pos = 0, origin = 0,
            ainput = input, aoutput = [of_nat k :: 8 word]\<rparr>"
  have ne: "loaded (incr_program k) \<noteq> []"
    unfolding incr_program_loaded by (simp add: incr_program_def)
  have a: "atrace (k + 1) (initial_conf (loaded (incr_program k)) input)
      = Some (incr_program k, ?c)"
    unfolding incr_program_loaded by (rule incr_program_trace)
  have h: "prog ?c ! pc ?c = 0" by (simp add: incr_program_def nth_append)
  have m: "used h0 + 1 + length (loaded (incr_program k)) + length (cells ?c) \<le> limit h0"
    unfolding incr_program_loaded using assms by (simp add: incr_program_def)
  from main_sim[OF incr_program_checked ne a h m] show ?thesis
    by auto
qed

lemma bytes_of_increments:
  "bytes_of (replicate k CHR ''+'' @ ''.'') = incr_program k"
  by (simp add: bytes_of_def incr_program_def)

text \<open>One increment and one decrement of a cell, as numbers.\<close>

lemma cell_arithmetic_wraps:
  "unat (get_data (incrementData h p) p) = (unat (get_data h p) + 1) mod 256"
  "unat (get_data (decrementData h p) p) = (unat (get_data h p) + 255) mod 256"
proof -
  have 1: "unat (v + 1) = (unat v + 1) mod 256" for v :: "8 word"
    by (simp add: unat_word_ariths)
  have 2: "unat (v - 1) = (unat v + 255) mod 256" for v :: "8 word"
  proof -
    have "v - 1 = v + 255" by simp
    then have "unat (v - 1) = unat (v + 255)" by (rule arg_cong)
    also have "\<dots> = (unat v + unat (255 :: 8 word)) mod 2 ^ LENGTH(8)"
      by (rule unat_word_ariths(1))
    also have "\<dots> = (unat v + 255) mod 256" by simp
    finally show ?thesis .
  qed
  show "unat (get_data (incrementData h p) p) = (unat (get_data h p) + 1) mod 256"
    using 1 by (simp add: incrementData_def set_data_vals)
  show "unat (get_data (decrementData h p) p) = (unat (get_data h p) + 255) mod 256"
    using 2 by (simp add: decrementData_def set_data_vals)
qed

section \<open>The claims about runs and about tapes\<close>

text \<open>
  Claim C1. The interpreter, run on the source \<open>++>+++++[<+>-]<.\<close> with any input
  and with room for the 19 blocks the run needs, returns; the first data cell (the data head
  allocated by \<open>main\<close>) then holds 7, and the output is the single byte 7.
\<close>

theorem addition_program_outputs_7:
  assumes "used h0 + 19 \<le> limit h0"
  shows "\<exists>s0 s. loadProgram (bytes_of ''++>+++++[<+>-]<.'') h0 input = Inr s0 \<and>
           main (bytes_of ''++>+++++[<+>-]<.'') h0 input = Some (Inr s) \<and>
           get_data (mem s) (DataPointer s0) = 7 \<and> stdout s = [7]"
  using add_program_run[OF assms] by (simp add: add_program_def)

theorem addition_program_outputs_7_witness:
  "used (fresh_heap 99 19) + 19 \<le> limit (fresh_heap 99 19) \<and>
   (\<exists>s0 s. loadProgram (bytes_of ''++>+++++[<+>-]<.'') (fresh_heap 99 19) [1, 2] = Inr s0 \<and>
           main (bytes_of ''++>+++++[<+>-]<.'') (fresh_heap 99 19) [1, 2] = Some (Inr s) \<and>
           get_data (mem s) (DataPointer s0) = 7 \<and> stdout s = [7])"
proof -
  have h: "used (fresh_heap 99 19) + 19 \<le> limit (fresh_heap 99 19)"
    by (simp add: fresh_heap_def)
  show ?thesis using h addition_program_outputs_7[OF h] by blast
qed

text \<open>
  Claim C5. Cell arithmetic wraps modulo 256. For every \<open>k\<close>, the program of \<open>k\<close> increments
  followed by one output, started by \<open>main\<close> on the zero data head, emits the single byte
  \<open>k mod 256\<close>, and the program of \<open>k + 256\<close> increments followed by one output emits the
  same byte. At \<open>k = 0\<close>: the program of 256 increments and one output emits the byte that
  the program of the output alone emits, the byte 0.
\<close>

theorem increments_wrap_at_256:
  assumes "used h0 + k + 259 \<le> limit h0"
  shows "\<exists>s s'. main (bytes_of (replicate k CHR ''+'' @ ''.'')) h0 input = Some (Inr s) \<and>
           map unat (stdout s) = [k mod 256] \<and>
           main (bytes_of (replicate (k + 256) CHR ''+'' @ ''.'')) h0 input = Some (Inr s') \<and>
           stdout s' = stdout s"
proof -
  have a: "used h0 + k + 3 \<le> limit h0" "used h0 + (k + 256) + 3 \<le> limit h0"
    using assms by simp_all
  from incr_program_run[OF a(1), of input] obtain s where
    s: "main (incr_program k) h0 input = Some (Inr s)" "stdout s = [of_nat k]" by blast
  from incr_program_run[OF a(2), of input] obtain s' where
    s': "main (incr_program (k + 256)) h0 input = Some (Inr s')"
      "stdout s' = [of_nat (k + 256)]" by blast
  have w: "(of_nat (k + 256) :: 8 word) = of_nat k" by simp
  have u: "unat (of_nat k :: 8 word) = k mod 256" by (simp add: unat_of_nat)
  show ?thesis
    unfolding bytes_of_increments
    using s s' w u by (intro exI[of _ s] exI[of _ s']) simp
qed

theorem increments_wrap_at_256_witness:
  "used (fresh_heap 99 262) + 3 + 259 \<le> limit (fresh_heap 99 262) \<and>
   (\<exists>s s'. main (bytes_of (replicate 3 CHR ''+'' @ ''.'')) (fresh_heap 99 262) []
             = Some (Inr s) \<and>
           map unat (stdout s) = [3] \<and>
           main (bytes_of (replicate 259 CHR ''+'' @ ''.'')) (fresh_heap 99 262) []
             = Some (Inr s') \<and>
           stdout s' = stdout s) \<and>
   used (fresh_heap 99 262) + 0 + 259 \<le> limit (fresh_heap 99 262) \<and>
   (\<exists>s s'. main (bytes_of ''.'') (fresh_heap 99 262) [] = Some (Inr s) \<and>
           map unat (stdout s) = [0] \<and>
           main (bytes_of (replicate 256 CHR ''+'' @ ''.'')) (fresh_heap 99 262) []
             = Some (Inr s') \<and>
           stdout s' = stdout s)"
proof -
  have h: "used (fresh_heap 99 262) + 3 + 259 \<le> limit (fresh_heap 99 262)"
    "used (fresh_heap 99 262) + 0 + 259 \<le> limit (fresh_heap 99 262)"
    by (simp_all add: fresh_heap_def)
  show ?thesis
    using h increments_wrap_at_256[OF h(1), of "[]"] increments_wrap_at_256[OF h(2), of "[]"]
    by simp
qed



text \<open>
  Claim C7. On every tape, with room for \<open>N\<close> more blocks: \<open>N\<close> moves forward from a cell
  \<open>p\<close> followed by \<open>N\<close> moves backward return to \<open>p\<close>, and so do \<open>N\<close> moves backward followed
  by \<open>N\<close> moves forward; the cells the tape had, \<open>p\<close> among them, hold the values they held.
  A move forward from the last cell, and a move backward from the first, returns a block that
  was not on the tape, holds 0 and is on the tape afterwards.
\<close>

theorem tape_round_trip:
  assumes "tape h cs" and "p \<in> set cs" and "used h + N \<le> limit h"
  shows "(\<exists>h1 q. moveN moveForward N h p = Inr (h1, q) \<and>
            moveN moveBackward N h1 q = Inr (h1, p) \<and>
            get_data h1 p = get_data h p \<and> map (get_data h1) cs = map (get_data h) cs) \<and>
         (\<exists>h1 q. moveN moveBackward N h p = Inr (h1, q) \<and>
            moveN moveForward N h1 q = Inr (h1, p) \<and>
            get_data h1 p = get_data h p \<and> map (get_data h1) cs = map (get_data h) cs) \<and>
         (used h < limit h \<longrightarrow>
            (\<exists>h1 q. moveForward h (last cs) = Inr (h1, q) \<and> q \<notin> set cs \<and>
               get_data h1 q = 0 \<and> tape h1 (cs @ [q])) \<and>
            (\<exists>h1 q. moveBackward h (hd cs) = Inr (h1, q) \<and> q \<notin> set cs \<and>
               get_data h1 q = 0 \<and> tape h1 (q # cs)))"
proof -
  have v: "get_data h1 p = get_data h p" if "map (get_data h1) cs = map (get_data h) cs" for h1
    using that assms(2) by (metis map_eq_conv)
  have 1: "\<exists>h1 q. moveN moveForward N h p = Inr (h1, q) \<and>
            moveN moveBackward N h1 q = Inr (h1, p) \<and>
            get_data h1 p = get_data h p \<and> map (get_data h1) cs = map (get_data h) cs"
    using forward_backward_roundtrip[OF assms] v by blast
  have 2: "\<exists>h1 q. moveN moveBackward N h p = Inr (h1, q) \<and>
            moveN moveForward N h1 q = Inr (h1, p) \<and>
            get_data h1 p = get_data h p \<and> map (get_data h1) cs = map (get_data h) cs"
    using backward_forward_roundtrip[OF assms] v by blast
  have 3: "\<exists>h1 q. moveForward h (last cs) = Inr (h1, q) \<and> q \<notin> set cs \<and>
               get_data h1 q = 0 \<and> tape h1 (cs @ [q])" if "used h < limit h"
    using moveForward_last[OF assms(1)] that tape_alloc_next[OF assms(1)]
      tape_notin_used[OF assms(1)]
    by (intro exI[of _ "alloc_next h (last cs)"] exI[of _ "used h"]) (simp add: alloc_next_simps)
  have 4: "\<exists>h1 q. moveBackward h (hd cs) = Inr (h1, q) \<and> q \<notin> set cs \<and>
               get_data h1 q = 0 \<and> tape h1 (q # cs)" if "used h < limit h"
    using moveBackward_first[OF assms(1)] that tape_alloc_prev[OF assms(1)]
      tape_notin_used[OF assms(1)]
    by (intro exI[of _ "alloc_prev h (hd cs)"] exI[of _ "used h"]) (simp add: alloc_prev_simps)
  show ?thesis using 1 2 3 4 by blast
qed

theorem tape_round_trip_witness:
  "tape (init_heads (fresh_heap 99 8)) [1] \<and> 1 \<in> set [1 :: nat] \<and>
   used (init_heads (fresh_heap 99 8)) + 3 \<le> limit (init_heads (fresh_heap 99 8)) \<and>
   used (init_heads (fresh_heap 99 8)) < limit (init_heads (fresh_heap 99 8)) \<and>
   (\<exists>h1 q. moveN moveForward 3 (init_heads (fresh_heap 99 8)) 1 = Inr (h1, q) \<and>
      moveN moveBackward 3 h1 q = Inr (h1, 1) \<and>
      get_data h1 1 = get_data (init_heads (fresh_heap 99 8)) 1) \<and>
   (\<exists>h1 q. moveN moveBackward 3 (init_heads (fresh_heap 99 8)) 1 = Inr (h1, q) \<and>
      moveN moveForward 3 h1 q = Inr (h1, 1) \<and>
      get_data h1 1 = get_data (init_heads (fresh_heap 99 8)) 1) \<and>
   (\<exists>h1 q. moveForward (init_heads (fresh_heap 99 8)) (last [1]) = Inr (h1, q) \<and>
      q \<notin> set [1] \<and> get_data h1 q = 0 \<and> tape h1 ([1] @ [q])) \<and>
   (\<exists>h1 q. moveBackward (init_heads (fresh_heap 99 8)) (hd [1]) = Inr (h1, q) \<and>
      q \<notin> set [1] \<and> get_data h1 q = 0 \<and> tape h1 (q # [1]))"
proof -
  let ?h = "init_heads (fresh_heap 99 8)"
  have u: "used (fresh_heap 99 8) = 0" by (simp add: fresh_heap_def)
  have t: "tape ?h [1]" using tape_init_heads(2)[of "fresh_heap 99 8"] u by simp
  have p: "1 \<in> set [1 :: nat]" by simp
  have m: "used ?h + 3 \<le> limit ?h" "used ?h < limit ?h"
    by (simp_all add: init_heads_simps fresh_heap_def)
  show ?thesis using t p m tape_round_trip[OF t p m(1)] by blast
qed

section \<open>Runs that never return, and the empty loop\<close>

lemma executeProgram_fixed_point:
  assumes "execStep s = Some (Inr s)" and "get_data (mem s) (InstructionPointer s) \<noteq> 0"
  shows "executeProgram s = None"
proof (rule ccontr)
  assume "executeProgram s \<noteq> None"
  then obtain y where y: "executeProgram s = Some y" by auto
  have "s \<noteq> s"
  proof (rule executeProgram.raw_induct[where P = "\<lambda>x y. x \<noteq> s", OF _ y])
    fix ex x z
    assume IH: "\<And>x y. ex x = Some y \<Longrightarrow> x \<noteq> s"
      and b: "(if get_data (mem x) (InstructionPointer x) \<noteq> 0
        then case execStep x of None \<Rightarrow> None | Some (Inl e) \<Rightarrow> Some (Inl e)
             | Some (Inr s') \<Rightarrow> ex s'
        else Some (Inr x)) = Some z"
    show "x \<noteq> s"
    proof
      assume "x = s"
      then have "ex s = Some z" using b assms by simp
      then show False using IH by blast
    qed
  qed
  then show False by simp
qed

lemma execTrace_prefix:
  "execTrace n s = Some (t, s') \<Longrightarrow> executeProgram s = executeProgram s'"
proof (induction n arbitrary: s t)
  case 0
  then show ?case by simp
next
  case (Suc n)
  from Suc.prems(1) obtain s1 t1 where s1: "execStep s = Some (Inr s1)"
    "execTrace n s1 = Some (t1, s')" and nz: "get_data (mem s) (InstructionPointer s) \<noteq> 0"
    by (auto split: option.splits if_splits sum.splits)
  have "executeProgram s = executeProgram s1"
    using nz s1(1) by (subst executeProgram.simps) simp
  then show ?case using Suc.IH[OF s1(2)] by simp
qed

lemma scanForward_0: "scanForward h ip 0 = Some (Inr (h, ip))"
  by (subst scanForward.simps) simp

lemma scanBackward_0: "scanBackward h ip 0 = Some (Inr (h, ip))"
  by (subst scanBackward.simps) simp

lemma loop_close_returns:
  assumes b: "sint (get_data (mem s) (InstructionPointer s)) = LOOP_END"
    and p: "prev_ptr (blocks (mem s) (InstructionPointer s)) = Some p"
    and a: "sint (get_data (mem s) p) = LOOP_START"
    and n: "next_ptr (blocks (mem s) p) = Some (InstructionPointer s)"
    and v: "get_data (mem s) (DataPointer s) \<noteq> 0"
  shows "execStep s = Some (Inr s)" and "executeProgram s = None"
proof -
  let ?h = "mem s" and ?q = "InstructionPointer s"
  have mf: "moveForward ?h p = Inr (?h, ?q)" using n by (simp add: moveForward_def)
  have mb: "moveBackward ?h ?q = Inr (?h, p)" using p by (simp add: moveBackward_def)
  have sb: "scanBackward ?h ?q 1 = Some (Inr (?h, p))"
    using mb a by (subst scanBackward.simps) (simp add: scanBackward_0)
  have c2: "execCommand s = Some (Inr (s\<lparr>mem := ?h, InstructionPointer := p\<rparr>))"
    using b v sb by (simp add: execCommand_def Let_def command_defs)
  show 2: "execStep s = Some (Inr s)"
    using c2 mf by (simp add: execStep_def)
  have nz: "get_data ?h ?q \<noteq> 0"
    using b by (auto simp: command_defs)
  show "executeProgram s = None" by (rule executeProgram_fixed_point[OF 2 nz])
qed

lemma empty_loop_nonzero:
  assumes a: "sint (get_data (mem s) (InstructionPointer s)) = LOOP_START"
    and n: "next_ptr (blocks (mem s) (InstructionPointer s)) = Some q"
    and b: "sint (get_data (mem s) q) = LOOP_END"
    and p: "prev_ptr (blocks (mem s) q) = Some (InstructionPointer s)"
    and v: "get_data (mem s) (DataPointer s) \<noteq> 0"
  shows "execStep s = Some (Inr (s\<lparr>InstructionPointer := q\<rparr>))"
    and "execStep (s\<lparr>InstructionPointer := q\<rparr>) = Some (Inr (s\<lparr>InstructionPointer := q\<rparr>))"
    and "executeProgram s = None"
proof -
  let ?h = "mem s" and ?ip = "InstructionPointer s"
  let ?s' = "s\<lparr>InstructionPointer := q\<rparr>"
  have mf: "moveForward ?h ?ip = Inr (?h, q)" using n by (simp add: moveForward_def)
  have c1: "execCommand s = Some (Inr s)"
    using a v by (simp add: execCommand_def Let_def command_defs)
  show 1: "execStep s = Some (Inr ?s')"
    using c1 mf by (simp add: execStep_def)
  have l: "execStep ?s' = Some (Inr ?s')" "executeProgram ?s' = None"
    using loop_close_returns[of ?s' ?ip] a n b p v by simp_all
  show "execStep ?s' = Some (Inr ?s')" by (rule l(1))
  have "get_data ?h ?ip \<noteq> 0" using a by (auto simp: command_defs)
  then show "executeProgram s = None"
    using 1 l(2) by (subst executeProgram.simps) simp
qed

lemma empty_loop_zero:
  assumes a: "sint (get_data (mem s) (InstructionPointer s)) = LOOP_START"
    and n: "next_ptr (blocks (mem s) (InstructionPointer s)) = Some q"
    and b: "sint (get_data (mem s) q) = LOOP_END"
    and v: "get_data (mem s) (DataPointer s) = 0"
    and r: "next_ptr (blocks (mem s) q) = Some r"
  shows "execStep s = Some (Inr (s\<lparr>InstructionPointer := r\<rparr>))"
proof -
  let ?h = "mem s" and ?ip = "InstructionPointer s"
  have mf: "moveForward ?h ?ip = Inr (?h, q)" using n by (simp add: moveForward_def)
  have mf2: "moveForward ?h q = Inr (?h, r)" using r by (simp add: moveForward_def)
  have sf: "scanForward ?h ?ip 1 = Some (Inr (?h, q))"
    using mf b by (subst scanForward.simps) (simp add: scanForward_0 command_defs)
  have c1: "execCommand s = Some (Inr (s\<lparr>mem := ?h, InstructionPointer := q\<rparr>))"
    using a v sf by (simp add: execCommand_def Let_def command_defs)
  show ?thesis using c1 mf2 by (simp add: execStep_def)
qed

lemma load_trace:
  assumes cb: "checkBrackets src" and ne: "loaded src \<noteq> []"
    and a: "atrace n (initial_conf (loaded src) input) = Some (t, c')"
    and m: "used h0 + 1 + length (loaded src) + length (cells c') \<le> limit h0"
  shows "\<exists>s0 s' D'. loadProgram src h0 input = Inr s0 \<and> execTrace n s0 = Some (t, s') \<and>
     sim (used h0 # [used h0 + 2 ..< used h0 + 2 + length (loaded src)]) D' s' c' \<and>
     D' ! origin c' = DataPointer s0"
proof -
  let ?c0 = "initial_conf (loaded src) input"
  have l: "1 \<le> length (cells c')" using atrace_cells_mono[OF a] by (simp add: initial_conf_def)
  then have m0: "used h0 + 2 + length (loaded src) \<le> limit h0" using m by simp
  from loadProgram_tape[OF cb m0, of input] obtain s0 where s0:
    "loadProgram src h0 input = Inr s0"
    "InstructionPointer s0 = used h0" "DataPointer s0 = Suc (used h0)"
    "stdin s0 = input" "stdout s0 = []"
    "used (mem s0) = used h0 + 2 + length (loaded src)" "limit (mem s0) = limit h0"
    "tape (mem s0) (used h0 # [used h0 + 2 ..< used (mem s0)])"
    "tape (mem s0) [Suc (used h0)]"
    "get_data (mem s0) (Suc (used h0)) = 0"
    "map (get_data (mem s0)) (used h0 # [used h0 + 2 ..< used (mem s0)])
      = (if loaded src = [] then [get_data h0 (used h0)] else loaded src @ [0])"
    by blast
  let ?I = "used h0 # [used h0 + 2 ..< used (mem s0)]" and ?D = "[Suc (used h0)]"
  have sim0: "sim ?I ?D s0 ?c0"
    using s0 ne by (simp add: sim_def initial_conf_def)
  have m1: "used (mem s0) + (length (cells c') - length (cells ?c0)) \<le> limit (mem s0)"
    using m l s0(6,7) by (simp add: initial_conf_def)
  from sim_trace[OF sim0 a m1] obtain D' s' where r:
    "execTrace n s0 = Some (t, s')" "sim ?I D' s' c'"
    "D' ! origin c' = ?D ! origin ?c0"
    by blast
  have o: "D' ! origin c' = DataPointer s0" using r(3) s0(3) by (simp add: initial_conf_def)
  show ?thesis using s0(1) r(1,2) o unfolding s0(6) by blast
qed

lemma stuck_program_checked: "checkBrackets stuck_program"
  by (simp add: stuck_program_def bytes_of_def checkBrackets_def checkBrackets_loop_Cons
      checkBrackets_loop_Nil command_defs)

lemma stuck_program_loaded: "loaded stuck_program = stuck_program"
  by (rule loaded_commands) (simp_all add: stuck_program_def bytes_of_def is_command_def command_defs)

lemma stuck_program_trace:
  "atrace 2 (initial_conf stuck_program input) =
     Some (bytes_of ''+['',
           \<lparr>prog = stuck_program @ [0], pc = 2, cells = [1], pos = 0, origin = 0,
            ainput = input, aoutput = []\<rparr>)"
  by code_simp

lemma stuck_program_diverges:
  assumes "used h0 + 6 \<le> limit h0"
  shows "main stuck_program h0 input = None"
proof -
  let ?c = "\<lparr>prog = stuck_program @ [0], pc = 2, cells = [1], pos = 0, origin = 0,
            ainput = input, aoutput = ([] :: 8 word list)\<rparr>"
  let ?I = "used h0 # [used h0 + 2 ..< used h0 + 2 + length (loaded stuck_program)]"
  have ne: "loaded stuck_program \<noteq> []"
    unfolding stuck_program_loaded by (simp add: stuck_program_def bytes_of_def)
  have a: "atrace 2 (initial_conf (loaded stuck_program) input) = Some (bytes_of ''+['', ?c)"
    unfolding stuck_program_loaded by (rule stuck_program_trace)
  have m: "used h0 + 1 + length (loaded stuck_program) + length (cells ?c) \<le> limit h0"
    unfolding stuck_program_loaded using assms by (simp add: stuck_program_def bytes_of_def)
  from load_trace[OF stuck_program_checked ne a m] obtain s0 s D where r:
    "loadProgram stuck_program h0 input = Inr s0" "execTrace 2 s0 = Some (bytes_of ''+['', s)"
    "sim ?I D s ?c"
    by blast
  have I: "?I = [used h0, used h0 + 2, used h0 + 3, used h0 + 4]"
    unfolding stuck_program_loaded
    by (simp add: stuck_program_def bytes_of_def upt_rec[of "used h0 + 2"] upt_rec[of "Suc (Suc (Suc (used h0)))"] upt_rec[of "Suc (Suc (Suc (Suc (used h0))))"])
  from r(3) have t: "tape (mem s) ?I" and ip: "InstructionPointer s = ?I ! 2"
    and v: "map (get_data (mem s)) ?I = stuck_program @ [0]"
    and dv: "get_data (mem s) (DataPointer s) = 1"
    using sim_cur[OF r(3)] by (simp_all add: sim_def)
  have q: "InstructionPointer s = used h0 + 3" using ip unfolding I by simp
  have pv: "prev_ptr (blocks (mem s) (used h0 + 3)) = Some (used h0 + 2)"
    using tape_prev[OF t, of 2] unfolding I by simp
  have nx: "next_ptr (blocks (mem s) (used h0 + 2)) = Some (used h0 + 3)"
    using tape_next[OF t, of 1] unfolding I by simp
  have d: "get_data (mem s) (used h0 + 2) = 91" "get_data (mem s) (used h0 + 3) = 93"
    using v unfolding I by (simp_all add: stuck_program_def bytes_of_def)
  have "executeProgram s = None"
    by (rule loop_close_returns(2)[of s "used h0 + 2"])
       (use q pv nx d dv in \<open>simp_all add: command_defs\<close>)
  then have "executeProgram s0 = None" using execTrace_prefix[OF r(2)] by simp
  then show ?thesis using r(1) by (simp add: main_def)
qed

section \<open>The empty source\<close>

lemma empty_source_load:
  "loadProgram [] (fresh_heap 46 8) [] =
     Inr \<lparr>mem = init_heads (fresh_heap 46 8), stdin = [], stdout = [],
          InstructionPointer = 0, DataPointer = 1\<rparr>"
proof -
  have "checkBrackets []" by (simp add: checkBrackets_def checkBrackets_loop_Nil)
  moreover have "used (fresh_heap 46 8) + 2 \<le> limit (fresh_heap 46 8)"
    "used (fresh_heap 46 8) = 0"
    by (simp_all add: fresh_heap_def)
  ultimately show ?thesis
    using loadProgram_unfold[of "[]" "fresh_heap 46 8" "[]"]
    by (simp add: parseInstructions_def parseInstructions_loop_Nil)
qed

lemma empty_source_run:
  "\<exists>s. main [] (fresh_heap 46 8) [] = Some (Inr s) \<and> stdout s = [0]"
proof -
  let ?h = "init_heads (fresh_heap 46 8)"
  let ?s0 = "\<lparr>mem = ?h, stdin = [], stdout = [], InstructionPointer = 0, DataPointer = 1\<rparr>"
  have u: "used (fresh_heap 46 8) = 0" "limit (fresh_heap 46 8) = 8" "get_data (fresh_heap 46 8) 0 = 46"
    by (simp_all add: fresh_heap_def get_data_def)
  have d: "get_data ?h 0 = 46" "get_data ?h 1 = 0" "used ?h = 2" "limit ?h = 8"
    using init_heads_simps[of "fresh_heap 46 8"] u by simp_all
  have t: "tape ?h [0]" using tape_init_heads(1)[of "fresh_heap 46 8"] u by simp
  have c: "execCommand ?s0 = Some (Inr (?s0\<lparr>stdout := [0]\<rparr>))"
    using d by (simp add: execCommand_def Let_def command_defs outputData_def)
  have mv: "moveForward ?h 0 = Inr (alloc_next ?h 0, 2)"
    using moveForward_last[OF t] d by simp
  let ?s1 = "?s0\<lparr>stdout := [0], mem := alloc_next ?h 0, InstructionPointer := 2\<rparr>"
  have st: "execStep ?s0 = Some (Inr ?s1)"
    using c mv by (simp add: execStep_def)
  have z: "get_data (alloc_next ?h 0) 2 = 0"
    using alloc_next_simps(3)[of ?h 0] d by simp
  have "executeProgram ?s1 = Some (Inr ?s1)"
    using z by (subst executeProgram.simps) simp
  then have "executeProgram ?s0 = Some (Inr ?s1)"
    using st d by (subst executeProgram.simps) simp
  then show ?thesis
    using empty_source_load by (intro exI[of _ ?s1]) (simp add: main_def)
qed

text \<open>
  Claim C3 at the empty source. \<open>main\<close> never writes the \<open>data\<close> of the instruction head,
  and \<open>parseInstructions\<close> writes it only when it stores a command. With no command in
  the source, the only cell of the instruction tape holds what \<open>malloc\<close> returned, here the
  byte 46 (the output command) and not the sentinel 0; the run of the empty program then
  writes a byte to the output.
\<close>

theorem empty_source_head_not_sentinel:
  "\<exists>s0 s. loadProgram [] (fresh_heap 46 8) [] = Inr s0 \<and>
     get_data (mem s0) (InstructionPointer s0) = 46 \<and>
     next_ptr (blocks (mem s0) (InstructionPointer s0)) = None \<and>
     main [] (fresh_heap 46 8) [] = Some (Inr s) \<and> stdout s = [0]"
proof -
  have u: "used (fresh_heap 46 8) = 0" "get_data (fresh_heap 46 8) 0 = 46"
    by (simp_all add: fresh_heap_def get_data_def)
  have d: "get_data (init_heads (fresh_heap 46 8)) 0 = 46"
    "next_ptr (blocks (init_heads (fresh_heap 46 8)) 0) = None"
    using init_heads_simps[of "fresh_heap 46 8"] u by simp_all
  from empty_source_run obtain s where
    "main [] (fresh_heap 46 8) [] = Some (Inr s)" "stdout s = [0]" by blast
  then show ?thesis using empty_source_load d by auto
qed

text \<open>
  Claim C4, as stated, fails. The run of \<open>+[]\<close> never returns: the cell holds 1 when the
  loop is reached, and the loop is never left. After a pass through the main loop at the
  loop-close, the instruction cursor is on the loop-close again.
\<close>

theorem empty_loop_never_exits:
  "main (bytes_of ''+[]'') (fresh_heap 0 6) [] = None \<and>
   execStep ((loop_state 5)\<lparr>InstructionPointer := 1\<rparr>)
     = Some (Inr ((loop_state 5)\<lparr>InstructionPointer := 1\<rparr>))"
proof -
  have "used (fresh_heap 0 6) + 6 \<le> limit (fresh_heap 0 6)" by (simp add: fresh_heap_def)
  then have 1: "main (bytes_of ''+[]'') (fresh_heap 0 6) [] = None"
    using stuck_program_diverges by (simp add: stuck_program_def)
  have 2: "execStep ((loop_state 5)\<lparr>InstructionPointer := 1\<rparr>)
     = Some (Inr ((loop_state 5)\<lparr>InstructionPointer := 1\<rparr>))"
    by (rule loop_close_returns(1)[where p = 0])
       (simp_all add: loop_state_def get_data_def command_defs)
  show ?thesis using 1 2 by simp
qed

text \<open>
  Claim C4, amended. At a loop-open whose next cell is a loop-close (linked back to it),
  anywhere on an instruction tape: with the data cursor on a nonzero cell, the pass at the
  loop-open changes nothing and steps to the loop-close, every pass at the loop-close ends
  on the loop-close again with nothing changed, and \<open>executeProgram\<close> never returns; with
  the data cursor on a zero cell, one pass skips the body and ends on the cell after the
  loop-close, with nothing else changed.
\<close>

theorem empty_loop:
  assumes "sint (get_data (mem s) (InstructionPointer s)) = LOOP_START"
    and "next_ptr (blocks (mem s) (InstructionPointer s)) = Some q"
    and "sint (get_data (mem s) q) = LOOP_END"
    and "prev_ptr (blocks (mem s) q) = Some (InstructionPointer s)"
  shows "(get_data (mem s) (DataPointer s) \<noteq> 0 \<longrightarrow>
            execStep s = Some (Inr (s\<lparr>InstructionPointer := q\<rparr>)) \<and>
            execStep (s\<lparr>InstructionPointer := q\<rparr>) = Some (Inr (s\<lparr>InstructionPointer := q\<rparr>)) \<and>
            executeProgram s = None) \<and>
         (get_data (mem s) (DataPointer s) = 0 \<longrightarrow>
            (\<forall>r. next_ptr (blocks (mem s) q) = Some r \<longrightarrow>
               execStep s = Some (Inr (s\<lparr>InstructionPointer := r\<rparr>))))"
  using empty_loop_nonzero[OF assms] empty_loop_zero[OF assms(1,2,3)] by blast

theorem empty_loop_witness:
  "sint (get_data (mem (loop_state 5)) (InstructionPointer (loop_state 5))) = LOOP_START \<and>
   next_ptr (blocks (mem (loop_state 5)) (InstructionPointer (loop_state 5))) = Some 1 \<and>
   sint (get_data (mem (loop_state 5)) 1) = LOOP_END \<and>
   prev_ptr (blocks (mem (loop_state 5)) 1) = Some (InstructionPointer (loop_state 5)) \<and>
   get_data (mem (loop_state 5)) (DataPointer (loop_state 5)) \<noteq> 0 \<and>
   execStep (loop_state 5) = Some (Inr ((loop_state 5)\<lparr>InstructionPointer := 1\<rparr>)) \<and>
   executeProgram (loop_state 5) = None \<and>
   sint (get_data (mem (loop_state 0)) (InstructionPointer (loop_state 0))) = LOOP_START \<and>
   next_ptr (blocks (mem (loop_state 0)) (InstructionPointer (loop_state 0))) = Some 1 \<and>
   sint (get_data (mem (loop_state 0)) 1) = LOOP_END \<and>
   prev_ptr (blocks (mem (loop_state 0)) 1) = Some (InstructionPointer (loop_state 0)) \<and>
   get_data (mem (loop_state 0)) (DataPointer (loop_state 0)) = 0 \<and>
   next_ptr (blocks (mem (loop_state 0)) 1) = Some 2 \<and>
   execStep (loop_state 0) = Some (Inr ((loop_state 0)\<lparr>InstructionPointer := 2\<rparr>))"
proof -
  have a: "sint (get_data (mem (loop_state 5)) (InstructionPointer (loop_state 5))) = LOOP_START"
    "next_ptr (blocks (mem (loop_state 5)) (InstructionPointer (loop_state 5))) = Some 1"
    "sint (get_data (mem (loop_state 5)) 1) = LOOP_END"
    "prev_ptr (blocks (mem (loop_state 5)) 1) = Some (InstructionPointer (loop_state 5))"
    by (simp_all add: loop_state_def get_data_def command_defs)
  have a': "get_data (mem (loop_state 5)) (DataPointer (loop_state 5)) \<noteq> 0"
    by (simp add: loop_state_def get_data_def)
  have b: "sint (get_data (mem (loop_state 0)) (InstructionPointer (loop_state 0))) = LOOP_START"
    "next_ptr (blocks (mem (loop_state 0)) (InstructionPointer (loop_state 0))) = Some 1"
    "sint (get_data (mem (loop_state 0)) 1) = LOOP_END"
    "prev_ptr (blocks (mem (loop_state 0)) 1) = Some (InstructionPointer (loop_state 0))"
    by (simp_all add: loop_state_def get_data_def command_defs)
  have b': "get_data (mem (loop_state 0)) (DataPointer (loop_state 0)) = 0"
    "next_ptr (blocks (mem (loop_state 0)) 1) = Some 2"
    by (simp_all add: loop_state_def get_data_def)
  show ?thesis
    using a a' b b' empty_loop[OF a] empty_loop[OF b] by blast
qed

section \<open>The two tapes stay apart\<close>

subsection \<open>Closed sets of blocks under the moves\<close>

lemma closed_used: "closed h A \<Longrightarrow> a \<in> A \<Longrightarrow> a < used h"
  unfolding closed_def by blast

lemma closed_next: "closed h A \<Longrightarrow> a \<in> A \<Longrightarrow> next_ptr (blocks h a) = Some q \<Longrightarrow> q \<in> A"
  unfolding closed_def by blast

lemma closed_prev: "closed h A \<Longrightarrow> a \<in> A \<Longrightarrow> prev_ptr (blocks h a) = Some q \<Longrightarrow> q \<in> A"
  unfolding closed_def by blast

lemma grown_refl: "closed h A \<Longrightarrow> closed h B \<Longrightarrow> A \<inter> B = {} \<Longrightarrow> grown h A B h A"
  by (simp add: grown_def)

lemma grown_trans:
  assumes 1: "grown h A B h1 A1" and 2: "grown h1 A1 B h2 A2"
  shows "grown h A B h2 A2"
proof -
  have d: "get_data h2 a = get_data h a" if "a < used h" for a
  proof -
    have "a < used h1" using that 1 by (simp add: grown_def)
    then have "get_data h2 a = get_data h1 a" using 2 by (simp add: grown_def)
    also have "\<dots> = get_data h a" using that 1 by (simp add: grown_def)
    finally show ?thesis .
  qed
  have "A \<subseteq> A2" using 1 2 unfolding grown_def by blast
  moreover have "closed h2 A2" "closed h2 B" "A2 \<inter> B = {}" using 2 unfolding grown_def by blast+
  moreover have "used h \<le> used h2" using 1 2 unfolding grown_def by linarith
  ultimately show ?thesis unfolding grown_def using d by blast
qed

lemma closed_alloc_next:
  assumes A: "closed h A" and p: "p \<in> A" and n: "next_ptr (blocks h p) = None"
  shows "closed (alloc_next h p) (insert (used h) A)"
proof -
  have pu: "p \<noteq> used h" using closed_used[OF A p] by simp
  show ?thesis
    unfolding closed_def
  proof (intro ballI conjI allI impI)
    fix a assume a: "a \<in> insert (used h) A"
    have "a = used h \<or> a < used h" using a closed_used[OF A] by blast
    then show "a < used (alloc_next h p)" by (auto simp: alloc_next_simps)
    fix q
    {
      assume q: "next_ptr (blocks (alloc_next h p) a) = Some q"
      show "q \<in> insert (used h) A"
      proof (cases "a = used h")
        case True
        then show ?thesis using q pu by (simp add: alloc_next_simps)
      next
        case False
        then have aA: "a \<in> A" using a by simp
        show ?thesis
        proof (cases "a = p")
          case True
          then show ?thesis using q pu by (simp add: alloc_next_simps)
        next
          case ap: False
          then have "blocks (alloc_next h p) a = blocks h a"
            using False by (simp add: alloc_next_simps)
          then have "next_ptr (blocks h a) = Some q" using q by simp
          then show ?thesis using closed_next[OF A aA] by simp
        qed
      qed
    }
    {
      assume q: "prev_ptr (blocks (alloc_next h p) a) = Some q"
      show "q \<in> insert (used h) A"
      proof (cases "a = used h")
        case True
        then show ?thesis using q pu p by (simp add: alloc_next_simps)
      next
        case False
        then have aA: "a \<in> A" using a by simp
        have "prev_ptr (blocks (alloc_next h p) a) = prev_ptr (blocks h a)"
          using False by (simp add: alloc_next_simps)
        then have "prev_ptr (blocks h a) = Some q" using q by simp
        then show ?thesis using closed_prev[OF A aA] by simp
      qed
    }
  qed
qed

lemma closed_alloc_prev:
  assumes A: "closed h A" and p: "p \<in> A" and n: "prev_ptr (blocks h p) = None"
  shows "closed (alloc_prev h p) (insert (used h) A)"
proof -
  have pu: "p \<noteq> used h" using closed_used[OF A p] by simp
  show ?thesis
    unfolding closed_def
  proof (intro ballI conjI allI impI)
    fix a assume a: "a \<in> insert (used h) A"
    have "a = used h \<or> a < used h" using a closed_used[OF A] by blast
    then show "a < used (alloc_prev h p)" by (auto simp: alloc_prev_simps)
    fix q
    {
      assume q: "prev_ptr (blocks (alloc_prev h p) a) = Some q"
      show "q \<in> insert (used h) A"
      proof (cases "a = used h")
        case True
        then show ?thesis using q pu by (simp add: alloc_prev_simps)
      next
        case False
        then have aA: "a \<in> A" using a by simp
        show ?thesis
        proof (cases "a = p")
          case True
          then show ?thesis using q pu by (simp add: alloc_prev_simps)
        next
          case ap: False
          then have "blocks (alloc_prev h p) a = blocks h a"
            using False by (simp add: alloc_prev_simps)
          then have "prev_ptr (blocks h a) = Some q" using q by simp
          then show ?thesis using closed_prev[OF A aA] by simp
        qed
      qed
    }
    {
      assume q: "next_ptr (blocks (alloc_prev h p) a) = Some q"
      show "q \<in> insert (used h) A"
      proof (cases "a = used h")
        case True
        then show ?thesis using q pu p by (simp add: alloc_prev_simps)
      next
        case False
        then have aA: "a \<in> A" using a by simp
        have "next_ptr (blocks (alloc_prev h p) a) = next_ptr (blocks h a)"
          using False by (simp add: alloc_prev_simps)
        then have "next_ptr (blocks h a) = Some q" using q by simp
        then show ?thesis using closed_next[OF A aA] by simp
      qed
    }
  qed
qed

lemma closed_frame:
  assumes "closed h B" "\<forall>a\<in>B. blocks h' a = blocks h a" "used h \<le> used h'"
  shows "closed h' B"
  unfolding closed_def
proof (intro ballI conjI allI impI)
  fix a assume a: "a \<in> B"
  then have e: "blocks h' a = blocks h a" using assms(2) by blast
  show "a < used h'" using closed_used[OF assms(1) a] assms(3) by simp
  fix q
  show "q \<in> B" if "next_ptr (blocks h' a) = Some q"
  proof -
    have "next_ptr (blocks h a) = Some q" using that e by simp
    then show ?thesis by (rule closed_next[OF assms(1) a])
  qed
  show "q \<in> B" if "prev_ptr (blocks h' a) = Some q"
  proof -
    have "prev_ptr (blocks h a) = Some q" using that e by simp
    then show ?thesis by (rule closed_prev[OF assms(1) a])
  qed
qed

lemma moveForward_grown:
  assumes A: "closed h A" and B: "closed h B" and dj: "A \<inter> B = {}" and p: "p \<in> A"
    and mv: "moveForward h p = Inr (h', q)"
  shows "\<exists>A'. grown h A B h' A' \<and> q \<in> A' \<and> limit h' = limit h"
proof (cases "next_ptr (blocks h p)")
  case (Some r)
  then have "h' = h" "q = r" using mv by (simp_all add: moveForward_def)
  moreover have "r \<in> A" using Some by (rule closed_next[OF A p])
  ultimately show ?thesis using grown_refl[OF A B dj] by blast
next
  case None
  then have m: "used h < limit h" and h': "h' = alloc_next h p" and q: "q = used h"
    using mv by (auto simp: moveForward_def malloc_def alloc_next_def Let_def split: if_splits)
  have cA: "closed h' (insert (used h) A)" unfolding h' by (rule closed_alloc_next[OF A p None])
  have uB: "used h \<notin> B" "p \<notin> B" using closed_used[OF B] dj p by blast+
  have cB: "closed h' B"
  proof (rule closed_frame[OF B])
    show "\<forall>a\<in>B. blocks h' a = blocks h a"
    proof
      fix a assume "a \<in> B"
      then have "a \<noteq> used h" "a \<noteq> p" using uB by blast+
      then show "blocks h' a = blocks h a" unfolding h' by (simp add: alloc_next_simps)
    qed
    show "used h \<le> used h'" unfolding h' by (simp add: alloc_next_simps)
  qed
  have "grown h A B h' (insert (used h) A)"
    unfolding grown_def using cA cB dj uB h' by (auto simp: alloc_next_simps)
  then show ?thesis using q h' by (intro exI[of _ "insert (used h) A"]) (simp add: alloc_next_simps)
qed

lemma moveBackward_grown:
  assumes A: "closed h A" and B: "closed h B" and dj: "A \<inter> B = {}" and p: "p \<in> A"
    and mv: "moveBackward h p = Inr (h', q)"
  shows "\<exists>A'. grown h A B h' A' \<and> q \<in> A' \<and> limit h' = limit h"
proof (cases "prev_ptr (blocks h p)")
  case (Some r)
  then have "h' = h" "q = r" using mv by (simp_all add: moveBackward_def)
  moreover have "r \<in> A" using Some by (rule closed_prev[OF A p])
  ultimately show ?thesis using grown_refl[OF A B dj] by blast
next
  case None
  then have m: "used h < limit h" and h': "h' = alloc_prev h p" and q: "q = used h"
    using mv by (auto simp: moveBackward_def malloc_def alloc_prev_def Let_def split: if_splits)
  have cA: "closed h' (insert (used h) A)" unfolding h' by (rule closed_alloc_prev[OF A p None])
  have uB: "used h \<notin> B" "p \<notin> B" using closed_used[OF B] dj p by blast+
  have cB: "closed h' B"
  proof (rule closed_frame[OF B])
    show "\<forall>a\<in>B. blocks h' a = blocks h a"
    proof
      fix a assume "a \<in> B"
      then have "a \<noteq> used h" "a \<noteq> p" using uB by blast+
      then show "blocks h' a = blocks h a" unfolding h' by (simp add: alloc_prev_simps)
    qed
    show "used h \<le> used h'" unfolding h' by (simp add: alloc_prev_simps)
  qed
  have "grown h A B h' (insert (used h) A)"
    unfolding grown_def using cA cB dj uB h' by (auto simp: alloc_prev_simps)
  then show ?thesis using q h' by (intro exI[of _ "insert (used h) A"]) (simp add: alloc_prev_simps)
qed

subsection \<open>The scans of the loops\<close>

lemma closed_set_data: "closed (set_data h p v) A = closed h A"
  by (simp add: closed_def set_data_ptrs)

lemma scanForward_grown:
  assumes "scanForward h ip c = Some (Inr (h', q))"
    and "closed h A" "closed h B" "A \<inter> B = {}" "ip \<in> A"
  shows "\<exists>A'. grown h A B h' A' \<and> q \<in> A' \<and> limit h' = limit h"
proof -
  let ?P = "\<lambda>h ip (c :: 32 word) (y :: error + heap \<times> addr). \<forall>A h' q. y = Inr (h', q) \<longrightarrow> closed h A \<longrightarrow> closed h B \<longrightarrow>
      A \<inter> B = {} \<longrightarrow> ip \<in> A \<longrightarrow> (\<exists>A'. grown h A B h' A' \<and> q \<in> A' \<and> limit h' = limit h)"
  have "?P h ip c (Inr (h', q))"
  proof (rule scanForward.raw_induct[where P = ?P, OF _ assms(1)])
    fix f h ip c y
    assume IH: "\<And>h ip c y. f h ip c = Some y \<Longrightarrow> ?P h ip c y"
      and b: "(if c \<noteq> 0
        then case moveForward h ip of Inl e \<Rightarrow> Some (Inl e)
             | Inr (h', ip') \<Rightarrow>
                 f h' ip'
                  (if sint (get_data h' ip') = LOOP_START then c + 1
                   else if sint (get_data h' ip') = LOOP_END then c - 1 else c)
        else Some (Inr (h, ip))) = Some y"
    show "?P h ip c y"
    proof (intro allI impI)
      fix A h' q
      assume y: "y = Inr (h', q)" and A: "closed h A" and B: "closed h B"
        and dj: "A \<inter> B = {}" and ip: "ip \<in> A"
      show "\<exists>A'. grown h A B h' A' \<and> q \<in> A' \<and> limit h' = limit h"
      proof (cases "c = 0")
        case True
        then have "h' = h" "q = ip" using b y by simp_all
        then show ?thesis using grown_refl[OF A B dj] ip by blast
      next
        case False
        then obtain h1 ip1 where mv: "moveForward h ip = Inr (h1, ip1)"
          using b y by (cases "moveForward h ip") auto
        let ?c' = "if sint (get_data h1 ip1) = LOOP_START then c + 1
                   else if sint (get_data h1 ip1) = LOOP_END then c - 1 else c"
        have r: "f h1 ip1 ?c' = Some y" using b False mv by simp
        from moveForward_grown[OF A B dj ip mv] obtain A1 where
          g1: "grown h A B h1 A1" "ip1 \<in> A1" "limit h1 = limit h" by blast
        then have c1: "closed h1 A1" "closed h1 B" "A1 \<inter> B = {}" by (simp_all add: grown_def)
        from IH[OF r] y c1 g1(2) obtain A' where
          g2: "grown h1 A1 B h' A'" "q \<in> A'" "limit h' = limit h1" by blast
        show ?thesis using grown_trans[OF g1(1) g2(1)] g2(2,3) g1(3) by auto
      qed
    qed
  qed
  then show ?thesis using assms(2-) by blast
qed

lemma scanBackward_grown:
  assumes "scanBackward h ip c = Some (Inr (h', q))"
    and "closed h A" "closed h B" "A \<inter> B = {}" "ip \<in> A"
  shows "\<exists>A'. grown h A B h' A' \<and> q \<in> A' \<and> limit h' = limit h"
proof -
  let ?P = "\<lambda>h ip (c :: 32 word) (y :: error + heap \<times> addr). \<forall>A h' q. y = Inr (h', q) \<longrightarrow> closed h A \<longrightarrow> closed h B \<longrightarrow>
      A \<inter> B = {} \<longrightarrow> ip \<in> A \<longrightarrow> (\<exists>A'. grown h A B h' A' \<and> q \<in> A' \<and> limit h' = limit h)"
  have "?P h ip c (Inr (h', q))"
  proof (rule scanBackward.raw_induct[where P = ?P, OF _ assms(1)])
    fix f h ip c y
    assume IH: "\<And>h ip c y. f h ip c = Some y \<Longrightarrow> ?P h ip c y"
      and b: "(if c \<noteq> 0
        then case moveBackward h ip of Inl e \<Rightarrow> Some (Inl e)
             | Inr (h', ip') \<Rightarrow>
                 f h' ip'
                  (if sint (get_data h' ip') = LOOP_START then c - 1
                   else if sint (get_data h' ip') = LOOP_END then c + 1 else c)
        else Some (Inr (h, ip))) = Some y"
    show "?P h ip c y"
    proof (intro allI impI)
      fix A h' q
      assume y: "y = Inr (h', q)" and A: "closed h A" and B: "closed h B"
        and dj: "A \<inter> B = {}" and ip: "ip \<in> A"
      show "\<exists>A'. grown h A B h' A' \<and> q \<in> A' \<and> limit h' = limit h"
      proof (cases "c = 0")
        case True
        then have "h' = h" "q = ip" using b y by simp_all
        then show ?thesis using grown_refl[OF A B dj] ip by blast
      next
        case False
        then obtain h1 ip1 where mv: "moveBackward h ip = Inr (h1, ip1)"
          using b y by (cases "moveBackward h ip") auto
        let ?c' = "if sint (get_data h1 ip1) = LOOP_START then c - 1
                   else if sint (get_data h1 ip1) = LOOP_END then c + 1 else c"
        have r: "f h1 ip1 ?c' = Some y" using b False mv by simp
        from moveBackward_grown[OF A B dj ip mv] obtain A1 where
          g1: "grown h A B h1 A1" "ip1 \<in> A1" "limit h1 = limit h" by blast
        then have c1: "closed h1 A1" "closed h1 B" "A1 \<inter> B = {}" by (simp_all add: grown_def)
        from IH[OF r] y c1 g1(2) obtain A' where
          g2: "grown h1 A1 B h' A'" "q \<in> A'" "limit h' = limit h1" by blast
        show ?thesis using grown_trans[OF g1(1) g2(1)] g2(2,3) g1(3) by auto
      qed
    qed
  qed
  then show ?thesis using assms(2-) by blast
qed

subsection \<open>A pass through the main loop\<close>

lemma sep_data_move:
  assumes s: "sep A B s"
    and g: "grown (mem s) B A h' B'" and q: "q \<in> B'"
  shows "\<exists>A' B'. A \<subseteq> A' \<and> B \<subseteq> B' \<and> sep A' B' (s\<lparr>mem := h', DataPointer := q\<rparr>) \<and>
           used (mem s) \<le> used h' \<and> (\<forall>a\<in>A. get_data h' a = get_data (mem s) a)"
proof -
  have "\<forall>a\<in>A. a < used (mem s)" using s closed_used unfolding sep_def by blast
  then have d: "\<forall>a\<in>A. get_data h' a = get_data (mem s) a" using g by (simp add: grown_def)
  have c: "closed h' B'" "closed h' A" "B' \<inter> A = {}" using g unfolding grown_def by blast+
  have "InstructionPointer s \<in> A" using s unfolding sep_def by blast
  then have "sep A B' (s\<lparr>mem := h', DataPointer := q\<rparr>)"
    using c q by (simp add: sep_def Int_commute)
  moreover have "B \<subseteq> B'" "used (mem s) \<le> used h'" using g by (simp_all add: grown_def)
  ultimately show ?thesis using d by blast
qed

lemma sep_instr_move:
  assumes s: "sep A B s"
    and g: "grown (mem s) A B h' A'" and q: "q \<in> A'"
  shows "\<exists>A' B'. A \<subseteq> A' \<and> B \<subseteq> B' \<and> sep A' B' (s\<lparr>mem := h', InstructionPointer := q\<rparr>) \<and>
           used (mem s) \<le> used h' \<and> (\<forall>a\<in>A. get_data h' a = get_data (mem s) a)"
proof -
  have "\<forall>a\<in>A. a < used (mem s)" using s closed_used unfolding sep_def by blast
  then have d: "\<forall>a\<in>A. get_data h' a = get_data (mem s) a" using g by (simp add: grown_def)
  have c: "closed h' A'" "closed h' B" "A' \<inter> B = {}" using g unfolding grown_def by blast+
  have "DataPointer s \<in> B" using s unfolding sep_def by blast
  then have "sep A' B (s\<lparr>mem := h', InstructionPointer := q\<rparr>)"
    using c q by (simp add: sep_def)
  moreover have "A \<subseteq> A'" "used (mem s) \<le> used h'" using g by (simp_all add: grown_def)
  ultimately show ?thesis using d by blast
qed

lemma sep_set_data:
  assumes s: "sep A B s" and m: "mem s' = set_data (mem s) (DataPointer s) v"
    and i: "InstructionPointer s' = InstructionPointer s" "DataPointer s' = DataPointer s"
  shows "\<exists>A' B'. A \<subseteq> A' \<and> B \<subseteq> B' \<and> sep A' B' s' \<and> used (mem s) \<le> used (mem s') \<and>
           (\<forall>a\<in>A. get_data (mem s') a = get_data (mem s) a)"
proof -
  have n: "\<forall>a\<in>A. a \<noteq> DataPointer s" using s unfolding sep_def by blast
  have "sep A B s'"
    using s m i by (simp add: sep_def closed_set_data)
  then show ?thesis using n m by (intro exI[of _ A] exI[of _ B]) (simp add: set_data_simps)
qed

lemma sep_same:
  "sep A B s \<Longrightarrow> mem s' = mem s \<Longrightarrow> InstructionPointer s' = InstructionPointer s \<Longrightarrow>
   DataPointer s' = DataPointer s \<Longrightarrow>
   \<exists>A' B'. A \<subseteq> A' \<and> B \<subseteq> B' \<and> sep A' B' s' \<and> used (mem s) \<le> used (mem s') \<and>
     (\<forall>a\<in>A. get_data (mem s') a = get_data (mem s) a)"
  by (intro exI[of _ A] exI[of _ B]) (simp add: sep_def)

lemma execCommand_unfold:
  "sint (get_data (mem s) (InstructionPointer s)) = MOVE_FORWARD \<Longrightarrow>
     execCommand s = (case moveForward (mem s) (DataPointer s) of Inl e \<Rightarrow> Some (Inl e)
        | Inr (h', dp') \<Rightarrow> Some (Inr (s\<lparr>mem := h', DataPointer := dp'\<rparr>)))"
  "sint (get_data (mem s) (InstructionPointer s)) = MOVE_BACKWARD \<Longrightarrow>
     execCommand s = (case moveBackward (mem s) (DataPointer s) of Inl e \<Rightarrow> Some (Inl e)
        | Inr (h', dp') \<Rightarrow> Some (Inr (s\<lparr>mem := h', DataPointer := dp'\<rparr>)))"
  "sint (get_data (mem s) (InstructionPointer s)) = LOOP_START \<Longrightarrow>
     execCommand s = (if get_data (mem s) (DataPointer s) = 0 then
        (case scanForward (mem s) (InstructionPointer s) 1 of None \<Rightarrow> None
         | Some (Inl e) \<Rightarrow> Some (Inl e)
         | Some (Inr (h', ip')) \<Rightarrow> Some (Inr (s\<lparr>mem := h', InstructionPointer := ip'\<rparr>)))
        else Some (Inr s))"
  "sint (get_data (mem s) (InstructionPointer s)) = LOOP_END \<Longrightarrow>
     execCommand s = (if get_data (mem s) (DataPointer s) \<noteq> 0 then
        (case scanBackward (mem s) (InstructionPointer s) 1 of None \<Rightarrow> None
         | Some (Inl e) \<Rightarrow> Some (Inl e)
         | Some (Inr (h', ip')) \<Rightarrow> Some (Inr (s\<lparr>mem := h', InstructionPointer := ip'\<rparr>)))
        else Some (Inr s))"
  by (simp_all add: execCommand_def Let_def command_defs)

lemma execCommand_sep:
  assumes s: "sep A B s" and e: "execCommand s = Some (Inr s')"
  shows "\<exists>A' B'. A \<subseteq> A' \<and> B \<subseteq> B' \<and> sep A' B' s' \<and> used (mem s) \<le> used (mem s') \<and>
           (\<forall>a\<in>A. get_data (mem s') a = get_data (mem s) a)"
proof -
  let ?h = "mem s" and ?ip = "InstructionPointer s" and ?dp = "DataPointer s"
  let ?cmd = "sint (get_data ?h ?ip)"
  from s have cA: "closed ?h A" and cB: "closed ?h B" and dj: "A \<inter> B = {}" "B \<inter> A = {}"
    and ip: "?ip \<in> A" and dp: "?dp \<in> B"
    unfolding sep_def by blast+
  consider
      (fwd) "?cmd = MOVE_FORWARD"
    | (bwd) "?cmd = MOVE_BACKWARD"
    | (inc) "?cmd = INCREMENT_DATA"
    | (dec) "?cmd = DECREMENT_DATA"
    | (out) "?cmd = OUTPUT_DATA"
    | (inp) "?cmd = INPUT_DATA"
    | (lst) "?cmd = LOOP_START"
    | (lend) "?cmd = LOOP_END"
    | (other) "?cmd \<noteq> MOVE_FORWARD" "?cmd \<noteq> MOVE_BACKWARD" "?cmd \<noteq> INCREMENT_DATA"
        "?cmd \<noteq> DECREMENT_DATA" "?cmd \<noteq> OUTPUT_DATA" "?cmd \<noteq> INPUT_DATA"
        "?cmd \<noteq> LOOP_START" "?cmd \<noteq> LOOP_END"
    by blast
  then show ?thesis
  proof cases
    case fwd
    from e[unfolded execCommand_unfold(1)[OF fwd]]
    obtain h' q where mv: "moveForward ?h ?dp = Inr (h', q)"
      and s': "s' = s\<lparr>mem := h', DataPointer := q\<rparr>"
      by (cases "moveForward ?h ?dp") auto
    from moveForward_grown[OF cB cA dj(2) dp mv] obtain B' where
      "grown ?h B A h' B'" "q \<in> B'" by blast
    from sep_data_move[OF s this] show ?thesis unfolding s' by simp
  next
    case bwd
    from e[unfolded execCommand_unfold(2)[OF bwd]]
    obtain h' q where mv: "moveBackward ?h ?dp = Inr (h', q)"
      and s': "s' = s\<lparr>mem := h', DataPointer := q\<rparr>"
      by (cases "moveBackward ?h ?dp") auto
    from moveBackward_grown[OF cB cA dj(2) dp mv] obtain B' where
      "grown ?h B A h' B'" "q \<in> B'" by blast
    from sep_data_move[OF s this] show ?thesis unfolding s' by simp
  next
    case inc
    then have s': "s' = s\<lparr>mem := set_data ?h ?dp (get_data ?h ?dp + 1)\<rparr>"
      using e by (simp add: execCommand_def Let_def command_defs incrementData_def)
    show ?thesis by (rule sep_set_data[OF s, where v = "get_data ?h ?dp + 1"]) (simp_all add: s')
  next
    case dec
    then have s': "s' = s\<lparr>mem := set_data ?h ?dp (get_data ?h ?dp - 1)\<rparr>"
      using e by (simp add: execCommand_def Let_def command_defs decrementData_def)
    show ?thesis by (rule sep_set_data[OF s, where v = "get_data ?h ?dp - 1"]) (simp_all add: s')
  next
    case out
    then have s': "s' = outputData s ?dp"
      using e by (simp add: execCommand_def Let_def command_defs)
    show ?thesis unfolding s' by (rule sep_same[OF s]) (simp_all add: outputData_def)
  next
    case inp
    then have s': "s' = inputData s ?dp"
      using e by (simp add: execCommand_def Let_def command_defs)
    obtain r rest where f: "fgetc (stdin s) = (r, rest)" by (cases "fgetc (stdin s)")
    have s'': "s' = s\<lparr>mem := set_data ?h ?dp (word_of_int r), stdin := rest\<rparr>"
      unfolding s' using f by (simp add: inputData_def)
    show ?thesis by (rule sep_set_data[OF s, where v = "word_of_int r"]) (simp_all add: s'')
  next
    case lst
    show ?thesis
    proof (cases "get_data ?h ?dp = 0")
      case False
      then have "s' = s" using e[unfolded execCommand_unfold(3)[OF lst]] by simp
      then show ?thesis using sep_same[OF s, of s] by simp
    next
      case True
      then have e': "(case scanForward ?h ?ip 1 of None \<Rightarrow> None
         | Some (Inl e) \<Rightarrow> Some (Inl e)
         | Some (Inr (h', ip')) \<Rightarrow> Some (Inr (s\<lparr>mem := h', InstructionPointer := ip'\<rparr>)))
         = Some (Inr s')"
        using e[unfolded execCommand_unfold(3)[OF lst]] by simp
      then obtain h' q where sc: "scanForward ?h ?ip 1 = Some (Inr (h', q))"
        and s': "s' = s\<lparr>mem := h', InstructionPointer := q\<rparr>"
        by (cases "scanForward ?h ?ip 1"; cases "the (scanForward ?h ?ip 1)") auto
      from scanForward_grown[OF sc cA cB dj(1) ip] obtain A' where
        "grown ?h A B h' A'" "q \<in> A'" by blast
      from sep_instr_move[OF s this] show ?thesis unfolding s' by simp
    qed
  next
    case lend
    show ?thesis
    proof (cases "get_data ?h ?dp = 0")
      case True
      then have "s' = s" using e[unfolded execCommand_unfold(4)[OF lend]] by simp
      then show ?thesis using sep_same[OF s, of s] by simp
    next
      case False
      then have e': "(case scanBackward ?h ?ip 1 of None \<Rightarrow> None
         | Some (Inl e) \<Rightarrow> Some (Inl e)
         | Some (Inr (h', ip')) \<Rightarrow> Some (Inr (s\<lparr>mem := h', InstructionPointer := ip'\<rparr>)))
         = Some (Inr s')"
        using e[unfolded execCommand_unfold(4)[OF lend]] by simp
      then obtain h' q where sc: "scanBackward ?h ?ip 1 = Some (Inr (h', q))"
        and s': "s' = s\<lparr>mem := h', InstructionPointer := q\<rparr>"
        by (cases "scanBackward ?h ?ip 1"; cases "the (scanBackward ?h ?ip 1)") auto
      from scanBackward_grown[OF sc cA cB dj(1) ip] obtain A' where
        "grown ?h A B h' A'" "q \<in> A'" by blast
      from sep_instr_move[OF s this] show ?thesis unfolding s' by simp
    qed
  next
    case other
    then have "s' = s" using e by (simp add: execCommand_def Let_def)
    then show ?thesis using sep_same[OF s, of s] by simp
  qed
qed

lemma execStep_sep:
  assumes s: "sep A B s" and e: "execStep s = Some (Inr s')"
  shows "\<exists>A' B'. A \<subseteq> A' \<and> B \<subseteq> B' \<and> sep A' B' s' \<and> used (mem s) \<le> used (mem s') \<and>
           (\<forall>a\<in>A. get_data (mem s') a = get_data (mem s) a)"
proof -
  from e obtain s1 where c: "execCommand s = Some (Inr s1)"
    by (cases "execCommand s"; cases "the (execCommand s)") (auto simp: execStep_def)
  with e obtain h' q where mv: "moveForward (mem s1) (InstructionPointer s1) = Inr (h', q)"
    and s': "s' = s1\<lparr>mem := h', InstructionPointer := q\<rparr>"
    by (cases "moveForward (mem s1) (InstructionPointer s1)") (auto simp: execStep_def)
  from execCommand_sep[OF s c] obtain A1 B1 where r1: "A \<subseteq> A1" "B \<subseteq> B1" "sep A1 B1 s1"
    "used (mem s) \<le> used (mem s1)" "\<forall>a\<in>A. get_data (mem s1) a = get_data (mem s) a"
    by blast
  from r1(3) have c1: "closed (mem s1) A1" "closed (mem s1) B1" "A1 \<inter> B1 = {}"
    "InstructionPointer s1 \<in> A1"
    unfolding sep_def by blast+
  from moveForward_grown[OF c1 mv] obtain A' where g: "grown (mem s1) A1 B1 h' A'" "q \<in> A'"
    by blast
  from sep_instr_move[OF r1(3) g] obtain A2 B2 where r2: "A1 \<subseteq> A2" "B1 \<subseteq> B2" "sep A2 B2 s'"
    "used (mem s1) \<le> used h'" "\<forall>a\<in>A1. get_data h' a = get_data (mem s1) a"
    unfolding s' by blast
  have d: "get_data (mem s') a = get_data (mem s) a" if "a \<in> A" for a
  proof -
    have "a \<in> A1" using that r1(1) by blast
    then have "get_data h' a = get_data (mem s1) a" using r2(5) by blast
    also have "\<dots> = get_data (mem s) a" using that r1(5) by blast
    finally show ?thesis unfolding s' by simp
  qed
  have u: "used (mem s) \<le> used (mem s')" using r1(4) r2(4) unfolding s' by simp
  have sub: "A \<subseteq> A2" "B \<subseteq> B2" using r1(1,2) r2(1,2) by blast+
  show ?thesis
    by (intro exI[of _ A2] exI[of _ B2] conjI sub r2(3) u ballI d)
qed

lemma execTrace_sep:
  "sep A B s \<Longrightarrow> execTrace n s = Some (t, s') \<Longrightarrow>
   \<exists>A' B'. A \<subseteq> A' \<and> B \<subseteq> B' \<and> sep A' B' s' \<and> used (mem s) \<le> used (mem s') \<and>
     (\<forall>a\<in>A. get_data (mem s') a = get_data (mem s) a)"
proof (induction n arbitrary: A B s t)
  case 0
  then show ?case using sep_same[of A B s s] by simp
next
  case (Suc n)
  from Suc.prems(2) obtain s1 where s1a: "execStep s = Some (Inr s1)"
    by (cases "execStep s"; cases "the (execStep s)") (auto split: if_splits)
  with Suc.prems(2) obtain t1 where s1b: "execTrace n s1 = Some (t1, s')"
    by (cases "execTrace n s1") (auto split: if_splits)
  note s1 = s1a s1b
  from execStep_sep[OF Suc.prems(1) s1(1)] obtain A1 B1 where r1: "A \<subseteq> A1" "B \<subseteq> B1"
    "sep A1 B1 s1" "used (mem s) \<le> used (mem s1)"
    "\<forall>a\<in>A. get_data (mem s1) a = get_data (mem s) a"
    by blast
  from Suc.IH[OF r1(3) s1(2)] obtain A2 B2 where r2: "A1 \<subseteq> A2" "B1 \<subseteq> B2" "sep A2 B2 s'"
    "used (mem s1) \<le> used (mem s')" "\<forall>a\<in>A1. get_data (mem s') a = get_data (mem s1) a"
    by blast
  have d: "get_data (mem s') a = get_data (mem s) a" if "a \<in> A" for a
  proof -
    have "a \<in> A1" using that r1(1) by blast
    then have "get_data (mem s') a = get_data (mem s1) a" using r2(5) by blast
    also have "\<dots> = get_data (mem s) a" using that r1(5) by blast
    finally show ?thesis .
  qed
  have u: "used (mem s) \<le> used (mem s')" using r1(4) r2(4) by simp
  have sub: "A \<subseteq> A2" "B \<subseteq> B2" using r1(1,2) r2(1,2) by blast+
  show ?case
    by (intro exI[of _ A2] exI[of _ B2] conjI sub r2(3) u ballI d)
qed

subsection \<open>The cells the loader built keep their values\<close>

lemma tape_closed:
  assumes t: "tape h cs"
  shows "closed h (set cs)"
  unfolding closed_def
proof (intro ballI conjI allI impI)
  fix a assume "a \<in> set cs"
  then obtain i where i: "i < length cs" "a = cs ! i" by (metis in_set_conv_nth)
  show "a < used h" using tape_nth_less[OF t i(1)] i(2) by simp
  fix q
  show "q \<in> set cs" if "next_ptr (blocks h a) = Some q"
  proof -
    have "Suc i < length cs \<and> q = cs ! Suc i"
      using that tape_next[OF t i(1)] i(2) by (simp split: if_splits)
    then show ?thesis by simp
  qed
  show "q \<in> set cs" if "prev_ptr (blocks h a) = Some q"
  proof -
    have "q = cs ! (i - 1)"
      using that tape_prev[OF t i(1)] i(2) by (simp split: if_splits)
    moreover have "i - 1 < length cs" using i(1) by simp
    ultimately show ?thesis by simp
  qed
qed

lemma tape_length: "tape h cs \<Longrightarrow> length cs \<le> used h"
proof -
  assume t: "tape h cs"
  then have "set cs \<subseteq> {..<used h}" by (auto simp: tape_def)
  then have "card (set cs) \<le> card {..<used h}" by (intro card_mono) simp_all
  moreover have "card (set cs) = length cs" using t by (simp add: tape_def distinct_card)
  ultimately show ?thesis by simp
qed

lemma walk_tape:
  "tape h cs \<Longrightarrow> i < length cs \<Longrightarrow> walk h n (cs ! i) = take n (drop i cs)"
proof (induction n arbitrary: i)
  case 0
  show ?case by simp
next
  case (Suc n)
  have d: "drop i cs = cs ! i # drop (Suc i) cs" using Suc.prems(2) by (simp add: Cons_nth_drop_Suc)
  show ?case
  proof (cases "Suc i < length cs")
    case True
    then have "next_ptr (blocks h (cs ! i)) = Some (cs ! Suc i)"
      using tape_next[OF Suc.prems] by simp
    then show ?thesis using Suc.IH[OF Suc.prems(1) True] d by simp
  next
    case False
    then have "next_ptr (blocks h (cs ! i)) = None"
      using tape_next[OF Suc.prems] by simp
    then show ?thesis using d False by simp
  qed
qed

lemma cells_from_tape: "tape h cs \<Longrightarrow> cells_from h (hd cs) = cs"
proof -
  assume t: "tape h cs"
  then have ne: "cs \<noteq> []" by (simp add: tape_def)
  then have "walk h (used h) (cs ! 0) = take (used h) (drop 0 cs)"
    by (intro walk_tape[OF t]) simp
  then show ?thesis using tape_length[OF t] ne by (simp add: cells_from_def hd_conv_nth)
qed

lemma parseInstructions_loop_Inr:
  "tape h cs \<Longrightarrow> 255 \<notin> set src \<Longrightarrow> used h \<le> limit h \<Longrightarrow>
   parseInstructions_loop src h (last cs) = Inr h' \<Longrightarrow>
   used h + length (filter is_command src) \<le> limit h"
proof (induction src arbitrary: h cs)
  case Nil
  then show ?case by simp
next
  case (Cons b bs)
  have b: "b \<noteq> 255" and bs: "255 \<notin> set bs" using Cons.prems by auto
  show ?case
  proof (cases "is_command b")
    case False
    then have "parseInstructions_loop bs h (last cs) = Inr h'"
      using Cons.prems(4) b by (simp add: parseInstructions_loop_Cons)
    from Cons.IH[OF Cons.prems(1) bs Cons.prems(3) this] show ?thesis using False by simp
  next
    case True
    let ?h1 = "set_data h (last cs) b"
    let ?h2 = "alloc_next ?h1 (last cs)"
    have t1: "tape ?h1 cs" using Cons.prems(1) by (simp add: tape_set_data)
    have mv: "moveForward ?h1 (last cs) =
        (if used h < limit h then Inr (?h2, used h) else Inl OutOfMemory)"
      using moveForward_last[OF t1] by (simp add: set_data_simps)
    have mem: "used h < limit h"
    proof (rule ccontr)
      assume "\<not> used h < limit h"
      then have "parseInstructions_loop (b # bs) h (last cs) = Inl OutOfMemory"
        using True b mv by (simp add: parseInstructions_loop_Cons)
      then show False using Cons.prems(4) by simp
    qed
    have r: "parseInstructions_loop bs ?h2 (last (cs @ [used h])) = Inr h'"
      using Cons.prems(4) True b mv mem by (simp add: parseInstructions_loop_Cons)
    have t2: "tape ?h2 (cs @ [used h])"
      using tape_alloc_next[OF t1] by (simp add: set_data_simps)
    have u2: "used ?h2 = Suc (used h)" "limit ?h2 = limit h"
      by (simp_all add: alloc_next_simps set_data_simps)
    have "used ?h2 \<le> limit ?h2" using mem u2 by simp
    from Cons.IH[OF t2 bs this r] show ?thesis using True u2 by simp
  qed
qed

lemma loadProgram_Inr:
  assumes "loadProgram src h0 input = Inr s0"
  shows "checkBrackets src \<and> used h0 + 2 + length (loaded src) \<le> limit h0"
proof -
  have cb: "checkBrackets src"
    using assms by (rule_tac ccontr) (simp add: loadProgram_def)
  have m1: "used h0 < limit h0"
    using assms cb by (rule_tac ccontr) (simp add: loadProgram_def malloc_def)
  have m2: "Suc (used h0) < limit h0"
    using assms cb m1 by (rule_tac ccontr) (simp add: loadProgram_def malloc_def)
  then have m: "used h0 + 2 \<le> limit h0" by simp
  let ?src = "takeWhile (\<lambda>b. b \<noteq> 255) src"
  obtain h' where p: "parseInstructions src (init_heads h0) (used h0) = Inr h'"
    using assms loadProgram_unfold[OF cb m, of input]
    by (cases "parseInstructions src (init_heads h0) (used h0)") auto
  then have p': "parseInstructions_loop ?src (init_heads h0) (last [used h0]) = Inr h'"
    using parseInstructions_loop_takeWhile[of src "init_heads h0" "used h0"]
    by (simp add: parseInstructions_def)
  have f: "255 \<notin> set ?src" by (auto dest: set_takeWhileD)
  have u: "used (init_heads h0) \<le> limit (init_heads h0)" using m by (simp add: init_heads_simps)
  from parseInstructions_loop_Inr[OF tape_init_heads(1) f u p']
  show ?thesis using cb by (simp add: init_heads_simps loaded_def)
qed

lemma executeProgram_trace:
  assumes "executeProgram s = Some (Inr s')"
  shows "\<exists>n t. execTrace n s = Some (t, s') \<and> get_data (mem s') (InstructionPointer s') = 0"
proof -
  let ?P = "\<lambda>s (y :: error + state). \<forall>s'. y = Inr s' \<longrightarrow>
      (\<exists>n t. execTrace n s = Some (t, s') \<and> get_data (mem s') (InstructionPointer s') = 0)"
  have "?P s (Inr s')"
  proof (rule executeProgram.raw_induct[where P = ?P, OF _ assms])
    fix f s y
    assume IH: "\<And>s y. f s = Some y \<Longrightarrow> ?P s y"
      and b: "(if get_data (mem s) (InstructionPointer s) \<noteq> 0
        then case execStep s of None \<Rightarrow> None | Some (Inl e) \<Rightarrow> Some (Inl e)
             | Some (Inr s') \<Rightarrow> f s'
        else Some (Inr s)) = Some y"
    show "?P s y"
    proof (intro allI impI)
      fix s' assume y: "y = Inr s'"
      show "\<exists>n t. execTrace n s = Some (t, s') \<and> get_data (mem s') (InstructionPointer s') = 0"
      proof (cases "get_data (mem s) (InstructionPointer s) = 0")
        case True
        then have "s' = s" using b y by simp
        then have "execTrace 0 s = Some ([], s')" by simp
        then show ?thesis using True \<open>s' = s\<close> by blast
      next
        case False
        then obtain s1 where s1: "execStep s = Some (Inr s1)" "f s1 = Some y"
          using b y by (cases "execStep s"; cases "the (execStep s)") auto
        from IH[OF s1(2)] y obtain n t where
          r: "execTrace n s1 = Some (t, s')" "get_data (mem s') (InstructionPointer s') = 0"
          by blast
        have "execTrace (Suc n) s = Some (get_data (mem s) (InstructionPointer s) # t, s')"
          using False s1(1) r(1) by simp
        then show ?thesis using r(2) by blast
      qed
    qed
  qed
  then show ?thesis by blast
qed

lemma loaded_cells_keep_values:
  assumes L: "loadProgram src h0 input = Inr s0" and T: "execTrace n s0 = Some (t, s)"
  shows "map (get_data (mem s)) (cells_from (mem s0) (InstructionPointer s0))
           = map (get_data (mem s0)) (cells_from (mem s0) (InstructionPointer s0))"
proof -
  from loadProgram_Inr[OF L] have cb: "checkBrackets src"
    and m: "used h0 + 2 + length (loaded src) \<le> limit h0" by simp_all
  from loadProgram_tape[OF cb m, of input] L have
    ip: "InstructionPointer s0 = used h0" and dp: "DataPointer s0 = Suc (used h0)"
    and tI: "tape (mem s0) (used h0 # [used h0 + 2 ..< used (mem s0)])"
    and tD: "tape (mem s0) [Suc (used h0)]"
    by auto
  let ?I = "used h0 # [used h0 + 2 ..< used (mem s0)]"
  have c: "cells_from (mem s0) (InstructionPointer s0) = ?I"
    using cells_from_tape[OF tI] ip by simp
  have "sep (set ?I) (set [Suc (used h0)]) s0"
    unfolding sep_def using tape_closed[OF tI] tape_closed[OF tD] ip dp by auto
  from execTrace_sep[OF this T] have "\<forall>a\<in>set ?I. get_data (mem s) a = get_data (mem s0) a"
    by blast
  then show ?thesis unfolding c by (intro map_cong refl) blast
qed

section \<open>Balanced programs: the scans find the matching bracket\<close>

lemma running_depth_Cons: "running_depth (b # bs) = bracket_value b + running_depth bs"
  by (simp add: bracket_value_def)

lemma running_depth_append: "running_depth (xs @ ys) = running_depth xs + running_depth ys"
  by (induction xs) (simp_all add: add.assoc)

lemma running_depth_rev: "running_depth (rev xs) = running_depth xs"
  by (induction xs) (simp_all add: running_depth_append)

lemma running_depth_filter: "running_depth (filter is_command xs) = running_depth xs"
  by (induction xs) (auto simp: is_command_def)

lemma take_filter:
  "\<exists>j\<le>length xs. take k (filter P xs) = filter P (take j xs)"
proof (induction xs arbitrary: k)
  case Nil
  show ?case by simp
next
  case (Cons x xs)
  show ?case
  proof (cases k)
    case 0
    then show ?thesis by (intro exI[of _ 0]) simp
  next
    case (Suc k')
    show ?thesis
    proof (cases "P x")
      case True
      from Cons.IH[of k'] obtain j where "j \<le> length xs" "take k' (filter P xs) = filter P (take j xs)"
        by blast
      then show ?thesis using True Suc by (intro exI[of _ "Suc j"]) simp
    next
      case False
      from Cons.IH[of k] obtain j where "j \<le> length xs" "take k (filter P xs) = filter P (take j xs)"
        by blast
      then show ?thesis using False by (intro exI[of _ "Suc j"]) simp
    qed
  qed
qed

lemma depth_balanced_filter:
  assumes "depth_balanced xs"
  shows "depth_balanced (filter is_command xs)"
  unfolding depth_balanced_def
proof (intro conjI allI impI)
  fix k assume "k \<le> length (filter is_command xs)"
  obtain j where j: "j \<le> length xs" "take k (filter is_command xs) = filter is_command (take j xs)"
    using take_filter by blast
  have "running_depth (take k (filter is_command xs)) = running_depth (take j xs)"
    unfolding j(2) by (rule running_depth_filter)
  then show "0 \<le> running_depth (take k (filter is_command xs))"
    using assms j(1) by (simp add: depth_balanced_def)
next
  show "running_depth (filter is_command xs) = 0"
    using assms by (simp add: running_depth_filter depth_balanced_def)
qed

lemma depth_bounded_filter:
  assumes "depth_bounded xs"
  shows "depth_bounded (filter is_command xs)"
  unfolding depth_bounded_def
proof (intro allI impI)
  fix k assume "k \<le> length (filter is_command xs)"
  obtain j where j: "j \<le> length xs" "take k (filter is_command xs) = filter is_command (take j xs)"
    using take_filter by blast
  have "running_depth (take k (filter is_command xs)) = running_depth (take j xs)"
    unfolding j(2) by (rule running_depth_filter)
  then show "running_depth (take k (filter is_command xs)) < 2 ^ 31"
    using assms j(1) by (simp add: depth_bounded_def)
qed

lemma loaded_balanced:
  assumes cb: "checkBrackets src"
  shows "depth_balanced (loaded src) \<and> depth_bounded (loaded src)"
proof -
  let ?src = "takeWhile (\<lambda>b. b \<noteq> 255) src"
  have f: "255 \<notin> set ?src" by (auto dest: set_takeWhileD)
  have "checkBrackets ?src"
    using cb checkBrackets_loop_takeWhile[of src 0] by (simp add: checkBrackets_def)
  then have "depth_balanced ?src" "depth_bounded ?src"
    using checkBrackets_depth[OF f] by simp_all
  then show ?thesis unfolding loaded_def
    using depth_balanced_filter depth_bounded_filter by blast
qed

lemma word_of_int_eq_0:
  "0 \<le> d \<Longrightarrow> d < 2 ^ 31 \<Longrightarrow> (word_of_int d :: 32 word) = 0 \<longleftrightarrow> d = 0"
proof
  assume a: "0 \<le> d" "d < 2 ^ 31" "(word_of_int d :: 32 word) = 0"
  then have "sint (word_of_int d :: 32 word) = 0" by simp
  moreover have "sint (word_of_int d :: 32 word) = d" using a by (intro sint_int_small) auto
  ultimately show "d = 0" by simp
qed simp

lemma scan_fwd_found:
  "1 \<le> d \<Longrightarrow> j \<le> length xs \<Longrightarrow> \<forall>i\<le>j. d + running_depth (take i xs) < 2 ^ 31 \<Longrightarrow>
   d + running_depth (take j xs) \<le> 0 \<Longrightarrow>
   \<exists>k. scan_fwd xs (word_of_int d) = Some k \<and> 1 \<le> k \<and> k \<le> j"
proof (induction xs arbitrary: d j)
  case Nil
  then show ?case by simp
next
  case (Cons x xs)
  have d0: "d < 2 ^ 31" using Cons.prems(3) by (elim allE[of _ 0]) simp
  have nz: "(word_of_int d :: 32 word) \<noteq> 0"
    using word_of_int_eq_0[of d] Cons.prems(1) d0 by auto
  let ?d' = "d + bracket_value x"
  have c': "(if sint x = LOOP_START then word_of_int d + 1
        else if sint x = LOOP_END then word_of_int d - 1 else (word_of_int d :: 32 word))
      = word_of_int ?d'"
    by (simp add: bracket_value_def command_defs)
  have st: "scan_fwd (x # xs) (word_of_int d) = map_option Suc (scan_fwd xs (word_of_int ?d'))"
    using nz c' by simp
  obtain j' where j: "j = Suc j'"
    using Cons.prems by (cases j) auto
  have bv: "- 1 \<le> bracket_value x" "bracket_value x \<le> 1" by (simp_all add: bracket_value_def)
  show ?case
  proof (cases "?d' = 0")
    case True
    then have "scan_fwd xs (word_of_int ?d') = Some 0" by (cases xs) simp_all
    then show ?thesis using st j by simp
  next
    case False
    then have d1: "1 \<le> ?d'" using Cons.prems(1) bv by linarith
    have d3: "j' \<le> length xs" using Cons.prems(2) j by simp
    have d2: "\<forall>i\<le>j'. ?d' + running_depth (take i xs) < 2 ^ 31"
    proof (intro allI impI)
      fix i assume "i \<le> j'"
      then have "Suc i \<le> j" using j by simp
      then have "d + running_depth (take (Suc i) (x # xs)) < 2 ^ 31"
        using Cons.prems(3) by blast
      then show "?d' + running_depth (take i xs) < 2 ^ 31"
        by (simp add: running_depth_Cons add.assoc del: running_depth.simps)
    qed
    have d4: "?d' + running_depth (take j' xs) \<le> 0"
      using Cons.prems(4) j by (simp add: running_depth_Cons add.assoc del: running_depth.simps)
    from Cons.IH[OF d1 d3 d2 d4] obtain k where
      "scan_fwd xs (word_of_int ?d') = Some k" "1 \<le> k" "k \<le> j'" by blast
    then show ?thesis using st j by simp
  qed
qed

lemma scan_bwd_found:
  "1 \<le> d \<Longrightarrow> j \<le> length xs \<Longrightarrow> \<forall>i\<le>j. d - running_depth (take i xs) < 2 ^ 31 \<Longrightarrow>
   d - running_depth (take j xs) \<le> 0 \<Longrightarrow>
   \<exists>k. scan_bwd xs (word_of_int d) = Some k \<and> 1 \<le> k \<and> k \<le> j"
proof (induction xs arbitrary: d j)
  case Nil
  then show ?case by simp
next
  case (Cons x xs)
  have d0: "d < 2 ^ 31" using Cons.prems(3) by (elim allE[of _ 0]) simp
  have nz: "(word_of_int d :: 32 word) \<noteq> 0"
    using word_of_int_eq_0[of d] Cons.prems(1) d0 by auto
  let ?d' = "d - bracket_value x"
  have c': "(if sint x = LOOP_START then word_of_int d - 1
        else if sint x = LOOP_END then word_of_int d + 1 else (word_of_int d :: 32 word))
      = word_of_int ?d'"
    by (simp add: bracket_value_def command_defs)
  have st: "scan_bwd (x # xs) (word_of_int d) = map_option Suc (scan_bwd xs (word_of_int ?d'))"
    using nz c' by simp
  obtain j' where j: "j = Suc j'"
    using Cons.prems by (cases j) auto
  have bv: "- 1 \<le> bracket_value x" "bracket_value x \<le> 1" by (simp_all add: bracket_value_def)
  show ?case
  proof (cases "?d' = 0")
    case True
    then have "scan_bwd xs (word_of_int ?d') = Some 0" by (cases xs) simp_all
    then show ?thesis using st j by simp
  next
    case False
    then have d1: "1 \<le> ?d'" using Cons.prems(1) bv by linarith
    have d3: "j' \<le> length xs" using Cons.prems(2) j by simp
    have d2: "\<forall>i\<le>j'. ?d' - running_depth (take i xs) < 2 ^ 31"
    proof (intro allI impI)
      fix i assume "i \<le> j'"
      then have "Suc i \<le> j" using j by simp
      then have "d - running_depth (take (Suc i) (x # xs)) < 2 ^ 31"
        using Cons.prems(3) by blast
      then show "?d' - running_depth (take i xs) < 2 ^ 31"
        by (simp add: running_depth_Cons del: running_depth.simps)
    qed
    have d4: "?d' - running_depth (take j' xs) \<le> 0"
      using Cons.prems(4) j by (simp add: running_depth_Cons del: running_depth.simps)
    from Cons.IH[OF d1 d3 d2 d4] obtain k where
      "scan_bwd xs (word_of_int ?d') = Some k" "1 \<le> k" "k \<le> j'" by blast
    then show ?thesis using st j by simp
  qed
qed

lemma scan_fwd_append: "scan_fwd xs c = Some k \<Longrightarrow> scan_fwd (xs @ ys) c = Some k"
proof (induction xs arbitrary: c k)
  case Nil
  then show ?case by (cases ys) (simp_all split: if_splits)
next
  case (Cons x xs)
  then show ?case by (auto split: if_splits)
qed

lemma running_depth_take_drop:
  "running_depth (take m (drop n xs)) = running_depth (take (n + m) xs) - running_depth (take n xs)"
proof -
  have "take (n + m) xs = take n xs @ take m (drop n xs)" by (rule take_add)
  then show ?thesis by (simp add: running_depth_append del: running_depth.simps)
qed

lemma running_depth_take_rev:
  assumes "m \<le> length xs"
  shows "running_depth (take m (rev xs))
           = running_depth xs - running_depth (take (length xs - m) xs)"
proof -
  have "take m (rev xs) = rev (drop (length xs - m) xs)" by (rule take_rev)
  then have "running_depth (take m (rev xs)) = running_depth (drop (length xs - m) xs)"
    by (simp add: running_depth_rev del: running_depth.simps)
  moreover have "running_depth xs = running_depth (take (length xs - m) xs)
      + running_depth (drop (length xs - m) xs)"
    using running_depth_append[of "take (length xs - m) xs" "drop (length xs - m) xs"]
    by simp
  ultimately show ?thesis by simp
qed

section \<open>The run of a validated program stays on the loaded tape\<close>

lemma acommand_progress:
  assumes bal: "depth_balanced p" and bnd: "depth_bounded p"
    and pr: "prog c = p @ [0]" and pc: "pc c < length p"
  shows "\<exists>c1. acommand c = Some c1 \<and> pc c1 < length p \<and> prog c1 = prog c"
proof -
  let ?x = "prog c ! pc c" and ?v = "cells c ! pos c"
  have x: "?x = p ! pc c" using pr pc by (simp add: nth_append)
  have pre: "0 \<le> running_depth (take k p)" if "k \<le> length p" for k
    using bal that by (simp add: depth_balanced_def)
  have up: "running_depth (take k p) < 2 ^ 31" if "k \<le> length p" for k
    using bnd that by (simp add: depth_bounded_def)
  have all: "running_depth (take k p) = running_depth p" if "length p \<le> k" for k
    using that by simp
  have zero: "running_depth p = 0" using bal by (simp add: depth_balanced_def)
  have suc: "running_depth (take (Suc (pc c)) p)
        = running_depth (take (pc c) p) + bracket_value (p ! pc c)"
  proof -
    have "take (Suc (pc c)) p = take (pc c) p @ [p ! pc c]"
      using pc by (simp add: take_Suc_conv_app_nth)
    then show ?thesis by (simp add: running_depth_append bracket_value_def)
  qed
  show ?thesis
  proof (cases "sint ?x = LOOP_START \<and> ?v = 0")
    case True
    then have bv: "bracket_value (p ! pc c) = 1" using x by (simp add: bracket_value_def)
    let ?xs = "drop (Suc (pc c)) p"
    have rel: "1 + running_depth (take m ?xs)
        = running_depth (take (Suc (pc c) + m) p) - running_depth (take (pc c) p)" for m
      using running_depth_take_drop[of m "Suc (pc c)" p] suc bv by simp
    have a: "\<forall>i\<le>length ?xs. 1 + running_depth (take i ?xs) < 2 ^ 31"
    proof (intro allI impI)
      fix i assume "i \<le> length ?xs"
      then have "Suc (pc c) + i \<le> length p" using pc by simp
      then show "1 + running_depth (take i ?xs) < 2 ^ 31"
        using rel[of i] up[of "Suc (pc c) + i"] pre[of "pc c"] pc by simp
    qed
    have "Suc (pc c) + length ?xs = length p" using pc by simp
    then have "running_depth (take (Suc (pc c) + length ?xs) p) = 0"
      using zero by simp
    then have b: "1 + running_depth (take (length ?xs) ?xs) \<le> 0"
      using rel[of "length ?xs"] pre[of "pc c"] pc by simp
    from scan_fwd_found[OF _ _ a b] obtain k where
      k: "scan_fwd ?xs (word_of_int 1) = Some k" "k \<le> length ?xs" by auto
    have "drop (Suc (pc c)) (prog c) = ?xs @ [0]" using pr pc by simp
    then have "scan_fwd (drop (Suc (pc c)) (prog c)) 1 = Some k"
      using scan_fwd_append[OF k(1), of "[0]"] by simp
    then have "acommand c = Some (c\<lparr>pc := pc c + k\<rparr>)"
      using True by (simp add: acommand_def Let_def command_defs)
    moreover have "pc c + k < length p" using k(2) pc by simp
    ultimately show ?thesis by simp
  next
    case nf: False
    show ?thesis
    proof (cases "sint ?x = LOOP_END \<and> ?v \<noteq> 0")
      case True
      then have bv: "bracket_value (p ! pc c) = - 1" using x by (simp add: bracket_value_def command_defs)
      have ge1: "1 \<le> running_depth (take (pc c) p)"
        using suc bv pre[of "Suc (pc c)"] pc by simp
      let ?ys = "take (pc c) p"
      let ?xs = "rev ?ys"
      have ly: "length ?ys = pc c" using pc by simp
      have rel: "1 - running_depth (take m ?xs)
          = 1 - running_depth ?ys + running_depth (take (pc c - m) p)" if "m \<le> pc c" for m
      proof -
        have "take (length ?ys - m) ?ys = take (pc c - m) p"
          unfolding ly by (simp add: min_def)
        then show ?thesis using running_depth_take_rev[of m ?ys] that ly by simp
      qed
      have a: "\<forall>i\<le>length ?xs. 1 - running_depth (take i ?xs) < 2 ^ 31"
      proof (intro allI impI)
        fix i assume "i \<le> length ?xs"
        then have i: "i \<le> pc c" using ly by simp
        then have "pc c - i \<le> length p" using pc by simp
        then show "1 - running_depth (take i ?xs) < 2 ^ 31"
          using rel[OF i] up[of "pc c - i"] ge1 by simp
      qed
      have b: "1 - running_depth (take (length ?xs) ?xs) \<le> 0"
        using ge1 by (simp add: running_depth_rev del: running_depth.simps)
      from scan_bwd_found[OF _ _ a b] obtain k where
        k: "scan_bwd ?xs (word_of_int 1) = Some k" "k \<le> length ?xs" by auto
      have "take (pc c) (prog c) = take (pc c) p" using pr pc by simp
      then have "scan_bwd (rev (take (pc c) (prog c))) 1 = Some k" using k(1) by simp
      then have "acommand c = Some (c\<lparr>pc := pc c - k\<rparr>)"
        using True by (simp add: acommand_def Let_def command_defs)
      moreover have "pc c - k < length p" using pc by simp
      ultimately show ?thesis by simp
    next
      case False
      have "\<exists>c1. acommand c = Some c1 \<and> pc c1 = pc c \<and> prog c1 = prog c"
        using nf False
        by (auto simp: acommand_def Let_def command_defs split: list.splits)
      then show ?thesis using pc by auto
    qed
  qed
qed

lemma astep_progress:
  assumes bal: "depth_balanced p" and bnd: "depth_bounded p"
    and pr: "prog c = p @ [0]" and pc: "pc c < length p"
  shows "\<exists>c'. astep c = Some c' \<and> pc c' \<le> length p \<and> prog c' = prog c"
proof -
  from acommand_progress[OF assms] obtain c1 where
    "acommand c = Some c1" "pc c1 < length p" "prog c1 = prog c" by blast
  then show ?thesis using pr by (simp add: astep_def)
qed

lemma acommand_grows:
  assumes "acommand c = Some c1" "length (cells c) < length (cells c1)"
  shows "sint (prog c ! pc c) = MOVE_FORWARD \<and> \<not> Suc (pos c) < length (cells c) \<or>
         sint (prog c ! pc c) = MOVE_BACKWARD \<and> pos c = 0"
  using assms
  by (auto simp: acommand_def Let_def split: if_splits option.splits list.splits)

lemma sim_step_memory:
  assumes s: "sim I D s c" and a: "acommand c = Some c1"
    and g: "length (cells c) < length (cells c1)"
    and e: "execStep s = Some (Inr s')"
  shows "used (mem s) < limit (mem s)"
proof (rule ccontr)
  assume n: "\<not> used (mem s) < limit (mem s)"
  from s have tD: "tape (mem s) D" and ps: "pos c < length D" "DataPointer s = D ! pos c"
    by (simp_all add: sim_def)
  have len: "length (cells c) = length D" using sim_lengths[OF s] by simp
  have ci: "get_data (mem s) (InstructionPointer s) = prog c ! pc c" by (rule sim_instr[OF s])
  have ne: "D \<noteq> []" using ps by auto
  from acommand_grows[OF a g] have "execCommand s = Some (Inl OutOfMemory)"
  proof
    assume f: "sint (prog c ! pc c) = MOVE_FORWARD \<and> \<not> Suc (pos c) < length (cells c)"
    then have "pos c = length D - 1" using ps len by arith
    then have "DataPointer s = last D" using ps ne by (simp add: last_conv_nth)
    then have "moveForward (mem s) (DataPointer s) = Inl OutOfMemory"
      using moveForward_last[OF tD] n by simp
    then show ?thesis using execCommand_unfold(1)[of s] f ci by simp
  next
    assume b: "sint (prog c ! pc c) = MOVE_BACKWARD \<and> pos c = 0"
    then have "DataPointer s = hd D" using ps ne by (simp add: hd_conv_nth)
    then have "moveBackward (mem s) (DataPointer s) = Inl OutOfMemory"
      using moveBackward_first[OF tD] n by simp
    then show ?thesis using execCommand_unfold(2)[of s] b ci by simp
  qed
  then show False using e by (simp add: execStep_def)
qed

lemma sim_step_back:
  assumes s: "sim I D s c" and bal: "depth_balanced p" and bnd: "depth_bounded p"
    and pr: "prog c = p @ [0]" and pc: "pc c < length p"
    and e: "execStep s = Some (Inr s')"
  shows "\<exists>D' c'. sim I D' s' c' \<and> prog c' = p @ [0] \<and> pc c' \<le> length p"
proof -
  from astep_progress[OF bal bnd pr pc] obtain c' where
    c': "astep c = Some c'" "pc c' \<le> length p" "prog c' = prog c" by blast
  from c'(1) obtain c1 where c1: "acommand c = Some c1" "cells c' = cells c1"
    by (auto simp: astep_def split: option.splits if_splits)
  have m: "length (cells c) < length (cells c') \<longrightarrow> used (mem s) < limit (mem s)"
    using sim_step_memory[OF s c1(1) _ e] c1(2) by simp
  from sim_step[OF s c'(1) m] obtain D' s'' where
    "execStep s = Some (Inr s'')" "sim I D' s'' c'" by blast
  then have "sim I D' s' c'" using e by simp
  then show ?thesis using c'(2,3) pr by auto
qed

lemma sim_trace_back:
  "sim I D s c \<Longrightarrow> depth_balanced p \<Longrightarrow> depth_bounded p \<Longrightarrow> prog c = p @ [0] \<Longrightarrow>
   pc c \<le> length p \<Longrightarrow> execTrace n s = Some (t, s') \<Longrightarrow>
   \<exists>D' c'. sim I D' s' c' \<and> prog c' = p @ [0]"
proof (induction n arbitrary: D s c t)
  case 0
  then show ?case by auto
next
  case (Suc n)
  from Suc.prems(6) obtain s1 where s1a: "execStep s = Some (Inr s1)"
    and nz: "get_data (mem s) (InstructionPointer s) \<noteq> 0"
    by (cases "execStep s"; cases "the (execStep s)") (auto split: if_splits)
  with Suc.prems(6) obtain t1 where s1b: "execTrace n s1 = Some (t1, s')"
    by (cases "execTrace n s1") (auto split: if_splits)
  have "prog c ! pc c \<noteq> 0" using nz sim_instr[OF Suc.prems(1)] by simp
  then have "pc c \<noteq> length p" using Suc.prems(4) by auto
  then have pc: "pc c < length p" using Suc.prems(5) by simp
  from sim_step_back[OF Suc.prems(1,2,3,4) pc s1a] obtain D1 c1 where
    "sim I D1 s1 c1" "prog c1 = p @ [0]" "pc c1 \<le> length p" by blast
  from Suc.IH[OF this(1) Suc.prems(2,3) this(2,3) s1b] show ?case .
qed

lemma instruction_tape_fixed:
  assumes L: "loadProgram src h0 input = Inr s0" and T: "execTrace n s0 = Some (t, s)"
    and ne: "loaded src \<noteq> []"
  shows "cells_from (mem s) (InstructionPointer s0) = cells_from (mem s0) (InstructionPointer s0)
       \<and> map (get_data (mem s)) (cells_from (mem s) (InstructionPointer s0)) = loaded src @ [0]"
proof -
  from loadProgram_Inr[OF L] have cb: "checkBrackets src"
    and m: "used h0 + 2 + length (loaded src) \<le> limit h0" by simp_all
  from loadProgram_tape[OF cb m, of input] obtain s1 where s1:
    "loadProgram src h0 input = Inr s1"
    "InstructionPointer s1 = used h0" "DataPointer s1 = Suc (used h0)"
    "stdin s1 = input" "stdout s1 = []"
    "tape (mem s1) (used h0 # [used h0 + 2 ..< used (mem s1)])"
    "tape (mem s1) [Suc (used h0)]"
    "get_data (mem s1) (Suc (used h0)) = 0"
    "map (get_data (mem s1)) (used h0 # [used h0 + 2 ..< used (mem s1)])
      = (if loaded src = [] then [get_data h0 (used h0)] else loaded src @ [0])"
    by blast
  have e: "s1 = s0" using s1(1) L by simp
  note s0 = s1(2-8)[unfolded e]
  have s0v: "map (get_data (mem s0)) (used h0 # [used h0 + 2 ..< used (mem s0)]) = loaded src @ [0]"
    using s1(9) ne unfolding e by simp
  let ?I = "used h0 # [used h0 + 2 ..< used (mem s0)]" and ?D = "[Suc (used h0)]"
  let ?c0 = "initial_conf (loaded src) input"
  have sim0: "sim ?I ?D s0 ?c0"
    using s0 s0v by (simp add: sim_def initial_conf_def)
  have bal: "depth_balanced (loaded src)" and l: "depth_bounded (loaded src)"
    using loaded_balanced[OF cb] by simp_all
  have p0: "prog ?c0 = loaded src @ [0]" "pc ?c0 \<le> length (loaded src)"
    by (simp_all add: initial_conf_def)
  from sim_trace_back[OF sim0 bal l p0 T] obtain D' c' where
    r: "sim ?I D' s c'" "prog c' = loaded src @ [0]" by blast
  then have t: "tape (mem s) ?I" and v: "map (get_data (mem s)) ?I = loaded src @ [0]"
    by (simp_all add: sim_def)
  have "cells_from (mem s) (hd ?I) = ?I" by (rule cells_from_tape[OF t])
  moreover have "cells_from (mem s0) (hd ?I) = ?I" by (rule cells_from_tape[OF s0(5)])
  ultimately show ?thesis using v s0(1) by simp
qed

section \<open>The instruction tape during the run\<close>

text \<open>
  What holds of every run. For every source that passed \<open>checkBrackets\<close> and was loaded, at
  every state \<open>s\<close> of the run (after any number of passes through the main loop of
  \<open>executeProgram\<close>, or when \<open>executeProgram\<close> has returned): each cell that the instruction
  tape had after loading holds in \<open>s\<close> the value it held after loading. When moreover the
  source has at least one command, the instruction tape of \<open>s\<close> has the cells it had after
  loading and no other, and their values are the loaded commands followed by the sentinel 0.
\<close>

theorem instruction_tape_read_only:
  assumes "checkBrackets src"
    and "loadProgram src h0 input = Inr s0"
    and "execTrace n s0 = Some (t, s) \<or> executeProgram s0 = Some (Inr s)"
  shows "map (get_data (mem s)) (cells_from (mem s0) (InstructionPointer s0))
           = map (get_data (mem s0)) (cells_from (mem s0) (InstructionPointer s0)) \<and>
         (loaded src \<noteq> [] \<longrightarrow>
            cells_from (mem s) (InstructionPointer s0)
              = cells_from (mem s0) (InstructionPointer s0) \<and>
            map (get_data (mem s)) (cells_from (mem s) (InstructionPointer s0))
              = loaded src @ [0])"
proof -
  from assms(3) obtain m u where T: "execTrace m s0 = Some (u, s)"
    using executeProgram_trace[of s0 s] by blast
  show ?thesis
    using loaded_cells_keep_values[OF assms(2) T] instruction_tape_fixed[OF assms(2) T]
    by blast
qed

theorem instruction_tape_read_only_instance:
  "\<exists>s0 s. checkBrackets (bytes_of ''+[-]'') \<and>
     loadProgram (bytes_of ''+[-]'') (fresh_heap 99 6) [] = Inr s0 \<and>
     execTrace 4 s0 = Some (bytes_of ''+[-]'', s) \<and>
     map (get_data (mem s)) (cells_from (mem s0) (InstructionPointer s0))
           = map (get_data (mem s0)) (cells_from (mem s0) (InstructionPointer s0)) \<and>
     loaded (bytes_of ''+[-]'') \<noteq> [] \<and>
     cells_from (mem s) (InstructionPointer s0) = cells_from (mem s0) (InstructionPointer s0) \<and>
     map (get_data (mem s)) (cells_from (mem s) (InstructionPointer s0))
       = bytes_of ''+[-]'' @ [0]"
proof -
  have h: "used (fresh_heap 99 6) + 6 \<le> limit (fresh_heap 99 6)"
    by (simp add: fresh_heap_def)
  from clear_program_run[OF h, of "[]"] obtain s0 s where
    r: "loadProgram (bytes_of ''+[-]'') (fresh_heap 99 6) [] = Inr s0"
       "execTrace 4 s0 = Some (bytes_of ''+[-]'', s)"
    unfolding clear_program_def by blast
  have c: "checkBrackets (bytes_of ''+[-]'')"
    using clear_program_checked by (simp add: clear_program_def)
  have l: "loaded (bytes_of ''+[-]'') = bytes_of ''+[-]''"
    using clear_program_loaded by (simp add: clear_program_def)
  have n: "loaded (bytes_of ''+[-]'') \<noteq> []"
    unfolding l by (simp add: bytes_of_def)
  note k = instruction_tape_read_only[OF c r(1) disjI1[OF r(2)], unfolded l]
  have k1: "map (get_data (mem s)) (cells_from (mem s0) (InstructionPointer s0))
           = map (get_data (mem s0)) (cells_from (mem s0) (InstructionPointer s0))"
    using k by (rule conjunct1)
  have k2: "cells_from (mem s) (InstructionPointer s0) = cells_from (mem s0) (InstructionPointer s0)"
    "map (get_data (mem s)) (cells_from (mem s) (InstructionPointer s0)) = bytes_of ''+[-]'' @ [0]"
    using k n[unfolded l] by blast+
  show ?thesis
    unfolding l
    by (intro exI[of _ s0] exI[of _ s] conjI) (fact c r k1 k2 n[unfolded l])+
qed

text \<open>
  Claim C9 at the empty source, which passes \<open>checkBrackets\<close>. With no command loaded, the
  head of the instruction tape holds what \<open>malloc\<close> returned, because \<open>main\<close> never writes
  its \<open>data\<close>. When this is the byte 46, \<open>executeProgram\<close> runs it as the output command and
  steps forward from the head, and \<open>moveForward\<close> links a new cell to the instruction tape:
  the values of the instruction tape are 46 after loading, and 46, 0 when the run has
  returned. The head itself keeps its value.
\<close>

theorem empty_source_tape_grows:
  "\<exists>s0 s. checkBrackets [] \<and> loadProgram [] (fresh_heap 46 8) [] = Inr s0 \<and>
     main [] (fresh_heap 46 8) [] = Some (Inr s) \<and>
     map (get_data (mem s0)) (cells_from (mem s0) (InstructionPointer s0)) = [46] \<and>
     map (get_data (mem s)) (cells_from (mem s) (InstructionPointer s0)) = [46, 0]"
proof -
  let ?h = "init_heads (fresh_heap 46 8)"
  let ?s0 = "\<lparr>mem = ?h, stdin = [], stdout = [], InstructionPointer = 0, DataPointer = 1\<rparr>"
  have u: "used (fresh_heap 46 8) = 0" "limit (fresh_heap 46 8) = 8" "get_data (fresh_heap 46 8) 0 = 46"
    by (simp_all add: fresh_heap_def get_data_def)
  have d: "get_data ?h 0 = 46" "get_data ?h 1 = 0" "used ?h = 2" "limit ?h = 8"
    using init_heads_simps[of "fresh_heap 46 8"] u by simp_all
  have t: "tape ?h [0]" using tape_init_heads(1)[of "fresh_heap 46 8"] u by simp
  have c: "execCommand ?s0 = Some (Inr (?s0\<lparr>stdout := [0]\<rparr>))"
    using d by (simp add: execCommand_def Let_def command_defs outputData_def)
  have mv: "moveForward ?h 0 = Inr (alloc_next ?h 0, 2)"
    using moveForward_last[OF t] d by simp
  let ?s1 = "?s0\<lparr>stdout := [0], mem := alloc_next ?h 0, InstructionPointer := 2\<rparr>"
  have st: "execStep ?s0 = Some (Inr ?s1)"
    using c mv by (simp add: execStep_def)
  have z: "get_data (alloc_next ?h 0) 2 = 0" "get_data (alloc_next ?h 0) 0 = 46"
    using alloc_next_simps(3)[of ?h 0] alloc_next_simps(4)[of 0 ?h 0] d by simp_all
  have "executeProgram ?s1 = Some (Inr ?s1)"
    using z by (subst executeProgram.simps) simp
  then have "executeProgram ?s0 = Some (Inr ?s1)"
    using st d by (subst executeProgram.simps) simp
  then have m: "main [] (fresh_heap 46 8) [] = Some (Inr ?s1)"
    using empty_source_load by (simp add: main_def)
  have t1: "tape (alloc_next ?h 0) [0, 2]" using tape_alloc_next[OF t] d by simp
  have c0: "cells_from ?h 0 = [0]" using cells_from_tape[OF t] by simp
  have c1: "cells_from (alloc_next ?h 0) 0 = [0, 2]" using cells_from_tape[OF t1] by simp
  have cb: "checkBrackets []" by (simp add: checkBrackets_def checkBrackets_loop_Nil)
  show ?thesis
    using cb empty_source_load m c0 c1 z d(1) by (intro exI[of _ ?s0] exI[of _ ?s1]) simp
qed

end
